theory Spec2Isabelle
  imports Main "HOL-Library.AList" "HOL-Library.Sublist" "HOL-Library.List_Lexorder"
    "HOL-Library.Char_ord"
begin

section \<open>Paths\<close>

text \<open>
  A path is the list of its components below the root. The scripts build every path with
  \<^verbatim>\<open>path.join\<close> or \<^verbatim>\<open>path.resolve\<close>, which normalise lexically, so the paths the code
  hands to \<^verbatim>\<open>fs\<close> are lists of plain names. The text of a symbolic link is not
  normalised: it is a list of components in which \<^verbatim>\<open>..\<close> may occur, relative or absolute.
\<close>

type_synonym path = "string list"

datatype comp = Up | Name string

fun split_on :: "char \<Rightarrow> string \<Rightarrow> string list" where
  "split_on d [] = [[]]"
| "split_on d (c # cs) =
     (if c = d then [] # split_on d cs
      else (case split_on d cs of [] \<Rightarrow> [[c]] | w # ws \<Rightarrow> (c # w) # ws))"

text \<open>The components of a string: empty segments and \<^verbatim>\<open>.\<close> vanish, \<^verbatim>\<open>..\<close> is \<open>Up\<close>.\<close>

definition comps :: "string \<Rightarrow> comp list" where
  "comps s =
     map (\<lambda>w. if w = ''..'' then Up else Name w)
       (filter (\<lambda>w. w \<noteq> [] \<and> w \<noteq> ''.'') (split_on CHR ''/'' s))"

text \<open>Lexical normalisation below the root: \<^verbatim>\<open>..\<close> drops the last component, if any.\<close>

fun normalize :: "path \<Rightarrow> comp list \<Rightarrow> path" where
  "normalize acc [] = acc"
| "normalize acc (Up # cs) = normalize (butlast acc) cs"
| "normalize acc (Name c # cs) = normalize (acc @ [c]) cs"

text \<open>\<^verbatim>\<open>path.join(base, seg1, seg2, ...)\<close> for a normalised absolute \<open>base\<close>.\<close>

definition path_join :: "path \<Rightarrow> string list \<Rightarrow> path" where
  "path_join base segs = normalize base (concat (map comps segs))"


section \<open>The file system\<close>

text \<open>
  A directory holds its entries in listing order. A regular file has its bytes and its
  permission bits. A symbolic link has its text: whether it is absolute, and its components.
\<close>

type_synonym bytes = "nat list"

datatype node = File bytes nat | Dir "(string \<times> node) list" | Link bool "comp list"

datatype errno = ENOENT | ENOTDIR | EISDIR | EEXIST | EINVAL | EPERM | EACCES | ELOOP

text \<open>Physical lookup: no link is followed (\<^verbatim>\<open>lstat\<close> on a path of real directories).\<close>

fun lstat :: "node \<Rightarrow> path \<Rightarrow> node option" where
  "lstat n [] = Some n"
| "lstat (Dir es) (c # p) = (case map_of es c of None \<Rightarrow> None | Some n \<Rightarrow> lstat n p)"
| "lstat (File b m) (c # p) = None"
| "lstat (Link a t) (c # p) = None"

text \<open>
  \<open>put p x\<close> stores \<open>x\<close> at the physical path \<open>p\<close> when the parent of \<open>p\<close> is a directory: an
  entry of that name is replaced, a new one is added (the order in which a directory is
  listed does not depend on where the entry is stored, see \<open>listing\<close>).
  \<open>remove p\<close> deletes the entry.
\<close>

fun put :: "path \<Rightarrow> node \<Rightarrow> node \<Rightarrow> node" where
  "put [] x n = x"
| "put (c # p) x (Dir es) =
     (case map_of es c of
        None \<Rightarrow> if p = [] then Dir (AList.update c x es) else Dir es
      | Some n \<Rightarrow> Dir (AList.update c (put p x n) es))"
| "put (c # p) x (File b m) = File b m"
| "put (c # p) x (Link a t) = Link a t"

fun remove :: "path \<Rightarrow> node \<Rightarrow> node" where
  "remove [] n = n"
| "remove (c # p) (Dir es) =
     (if p = [] then Dir (AList.delete c es)
      else case map_of es c of
             None \<Rightarrow> Dir es
           | Some n \<Rightarrow> Dir (AList.update c (remove p n) es))"
| "remove (c # p) (File b m) = File b m"
| "remove (c # p) (Link a t) = Link a t"

text \<open>
  Path resolution as the kernel does it: components are looked up one by one from the
  physical directory reached so far, a link met on the way is replaced by its text, and at
  most \<open>MAXSYMLINKS\<close> links are followed in one resolution (Linux: 40).
\<close>

definition MAXSYMLINKS :: nat where
  "MAXSYMLINKS = 40"

fun walk :: "nat \<Rightarrow> node \<Rightarrow> path \<Rightarrow> comp list \<Rightarrow> path option" where
  "walk k fs cur [] = Some cur"
| "walk k fs cur (Up # rest) =
     (case lstat fs cur of
        Some (Dir es) \<Rightarrow> walk k fs (butlast cur) rest
      | _ \<Rightarrow> None)"
| "walk k fs cur (Name c # rest) =
     (case lstat fs (cur @ [c]) of
        None \<Rightarrow> None
      | Some (Link a t) \<Rightarrow>
          (case k of
             0 \<Rightarrow> None
           | Suc k' \<Rightarrow> walk k' fs (if a then [] else cur) (t @ rest))
      | Some (File b m) \<Rightarrow> walk k fs (cur @ [c]) rest
      | Some (Dir es) \<Rightarrow> walk k fs (cur @ [c]) rest)"

text \<open>\<open>realpath\<close> follows every link; \<open>lresolve\<close> follows the links of the parent only.\<close>

definition realpath :: "node \<Rightarrow> path \<Rightarrow> path option" where
  "realpath fs p = walk MAXSYMLINKS fs [] (map Name p)"

definition lresolve :: "node \<Rightarrow> path \<Rightarrow> path option" where
  "lresolve fs p =
     (if p = [] then Some []
      else case realpath fs (butlast p) of
             None \<Rightarrow> None
           | Some d \<Rightarrow> (case lstat fs d of Some (Dir es) \<Rightarrow> Some (d @ [last p]) | _ \<Rightarrow> None))"

definition stat :: "node \<Rightarrow> path \<Rightarrow> node option" where
  "stat fs p = (case realpath fs p of None \<Rightarrow> None | Some q \<Rightarrow> lstat fs q)"

subsection \<open>The calls of Node's fs module that the scripts use\<close>

definition existsSync :: "node \<Rightarrow> path \<Rightarrow> bool" where
  "existsSync fs p = (stat fs p \<noteq> None)"

text \<open>
  \<^verbatim>\<open>readdirSync(p, { withFileTypes: true })\<close>: the entries with their own types. Node
  takes the listing from libuv's \<^verbatim>\<open>scandir\<close>, which sorts the names bytewise (\<^verbatim>\<open>strcmp\<close>): the
  order of a listing is the lexicographic order of the names as lists of bytes, whatever the
  order in which the entries were made.
\<close>

definition listing :: "(string \<times> node) list \<Rightarrow> (string \<times> node) list" where
  "listing es = sort_key fst (AList.clearjunk es)"

definition readdirSync :: "node \<Rightarrow> path \<Rightarrow> errno + (string \<times> node) list" where
  "readdirSync fs p =
     (case stat fs p of
        None \<Rightarrow> Inl ENOENT
      | Some (Dir es) \<Rightarrow> Inr (listing es)
      | Some _ \<Rightarrow> Inl ENOTDIR)"

definition readFileSync :: "node \<Rightarrow> path \<Rightarrow> errno + bytes" where
  "readFileSync fs p =
     (case stat fs p of
        None \<Rightarrow> Inl ENOENT
      | Some (File b m) \<Rightarrow> Inr b
      | Some _ \<Rightarrow> Inl EISDIR)"

text \<open>\<^verbatim>\<open>unlinkSync\<close>, and \<^verbatim>\<open>rmSync\<close> without options: the entry itself, never a directory.\<close>

definition unlinkSync :: "node \<Rightarrow> path \<Rightarrow> errno + node" where
  "unlinkSync fs p =
     (case lresolve fs p of
        None \<Rightarrow> Inl ENOENT
      | Some q \<Rightarrow>
          (case lstat fs q of
             None \<Rightarrow> Inl ENOENT
           | Some (Dir es) \<Rightarrow> Inl EISDIR
           | Some _ \<Rightarrow> Inr (remove q fs)))"

definition rmSync :: "node \<Rightarrow> path \<Rightarrow> errno + node" where
  "rmSync fs p = unlinkSync fs p"


text \<open>
  Writing a regular file (\<^verbatim>\<open>writeFileSync\<close>, the destination of \<^verbatim>\<open>copyFileSync\<close>, the file
  \<^verbatim>\<open>npm pack\<close> leaves): an existing file is overwritten through its links, a missing one is
  created in its resolved parent.
\<close>

definition writeFile :: "node \<Rightarrow> path \<Rightarrow> bytes \<Rightarrow> nat \<Rightarrow> errno + node" where
  "writeFile fs p b m =
     (case stat fs p of
        Some (Dir es) \<Rightarrow> Inl EISDIR
      | Some _ \<Rightarrow> (case realpath fs p of None \<Rightarrow> Inl ENOENT | Some q \<Rightarrow> Inr (put q (File b m) fs))
      | None \<Rightarrow>
          (case lresolve fs p of
             None \<Rightarrow> Inl ENOENT
           | Some q \<Rightarrow>
               (case lstat fs q of
                  None \<Rightarrow> Inr (put q (File b m) fs)
                | Some _ \<Rightarrow> Inl ENOENT)))"


definition chmodFile :: "node \<Rightarrow> path \<Rightarrow> nat \<Rightarrow> errno + node" where
  "chmodFile fs p m =
     (case realpath fs p of
        None \<Rightarrow> Inl ENOENT
      | Some q \<Rightarrow>
          (case lstat fs q of
             Some (File b m0) \<Rightarrow> Inr (put q (File b m) fs)
           | Some _ \<Rightarrow> Inr fs
           | None \<Rightarrow> Inl ENOENT))"

text \<open>
  \<^verbatim>\<open>mkdirSync(p, { recursive: true })\<close>: missing directories are created on the way, an
  existing directory is entered, a regular file on the way is an error.
\<close>

fun mkdirp :: "nat \<Rightarrow> node \<Rightarrow> path \<Rightarrow> comp list \<Rightarrow> (errno + unit) \<times> node" where
  "mkdirp k fs cur [] = (Inr (), fs)"
| "mkdirp k fs cur (Up # rest) =
     (case lstat fs cur of
        Some (Dir es) \<Rightarrow> mkdirp k fs (butlast cur) rest
      | _ \<Rightarrow> (Inl ENOTDIR, fs))"
| "mkdirp k fs cur (Name c # rest) =
     (case lstat fs (cur @ [c]) of
        None \<Rightarrow>
          (case lstat fs cur of
             Some (Dir es) \<Rightarrow> mkdirp k (put (cur @ [c]) (Dir []) fs) (cur @ [c]) rest
           | _ \<Rightarrow> (Inl ENOTDIR, fs))
      | Some (Dir es) \<Rightarrow> mkdirp k fs (cur @ [c]) rest
      | Some (File b m) \<Rightarrow> (Inl (if rest = [] then EEXIST else ENOTDIR), fs)
      | Some (Link a t) \<Rightarrow>
          (case k of
             0 \<Rightarrow> (Inl ELOOP, fs)
           | Suc k' \<Rightarrow> mkdirp k' fs (if a then [] else cur) (t @ rest)))"

definition mkdirSync :: "node \<Rightarrow> path \<Rightarrow> (errno + unit) \<times> node" where
  "mkdirSync fs p = mkdirp MAXSYMLINKS fs [] (map Name p)"



section \<open>The host and the state\<close>

text \<open>
  What the code reads from its host and cannot change is a parameter: the platform, the
  directories Node reports, what the registry serves for \<^verbatim>\<open>npm pack name@version\<close> (the name
  of the tarball file npm writes, and its bytes; \<open>None\<close> when npm exits with an error), zlib's
  \<^verbatim>\<open>gunzipSync\<close> (\<open>None\<close> when it throws), the entries a tar stream holds, Node's module
  resolution, and the two decisions of the operating system that depend on the credentials of
  the process: whether \<^verbatim>\<open>chmod\<close> is refused for a path, and whether a node may be executed.
\<close>

datatype tar_entry =
    TarFile path bytes nat
  | TarDir path
  | TarLink path bool "comp list"
  | TarCorrupt

record env =
  platform :: string
  arch :: string
  homedir :: path
  tmpdir :: path
  dirname :: path
  npm_pack :: "string \<Rightarrow> string \<Rightarrow> (string \<times> bytes) option"
  gunzipSync :: "bytes \<Rightarrow> bytes option"
  tar_entries :: "bytes \<Rightarrow> tar_entry list"
  require_resolve :: "string \<Rightarrow> path option"
  chmod_denied :: "path \<Rightarrow> bool"
  access_x :: "node \<Rightarrow> bool"

text \<open>The state: the file system, and the log of the \<^verbatim>\<open>npm pack\<close> runs (the transport calls).\<close>

record state =
  disk :: node
  npm_log :: "(string \<times> string) list"

datatype error =
    VersionRequired
  | UnsupportedPlatform string
  | TransportFailure
  | TarballNotFound
  | CorruptArchive
  | IOFailure errno
  | NotFound string
  | OutOfFuel

section \<open>The Python runtime package: platform table and download\<close>

definition SCOPE :: string where
  "SCOPE = ''@xspect-build''"

definition platformKey :: "string \<Rightarrow> string \<Rightarrow> string" where
  "platformKey os cpu = os @ ''-'' @ cpu"

definition platformPackageMap :: "(string \<times> string) list" where
  "platformPackageMap =
     [(''linux-arm64'', SCOPE @ ''/python-linux-arm64''),
      (''linux-x64'', SCOPE @ ''/python-linux-x64'')]"

text \<open>
  \<^verbatim>\<open>platformPackageMap[platformKey] || null\<close>. The key always holds a hyphen, so it is never
  the name of a property the object inherits from its prototype.
\<close>

definition getPlatformPackageName :: "env \<Rightarrow> string option" where
  "getPlatformPackageName env = map_of platformPackageMap (platformKey (platform env) (arch env))"

text \<open>
  \<^verbatim>\<open>execSync(`npm pack ${packageName}@${version}`, { cwd })\<close>: the run is logged, npm writes
  the tarball into \<open>cwd\<close>, and a failing run throws.
\<close>

definition npmPack :: "env \<Rightarrow> string \<Rightarrow> string \<Rightarrow> path \<Rightarrow> state \<Rightarrow> (error + unit) \<times> state" where
  "npmPack env packageName version cwd s =
     (let s1 = s\<lparr>npm_log := npm_log s @ [(packageName, version)]\<rparr> in
      case npm_pack env packageName version of
        None \<Rightarrow> (Inl TransportFailure, s1)
      | Some (name, b) \<Rightarrow>
          (case writeFile (disk s1) (cwd @ [name]) b 420 of
             Inl e \<Rightarrow> (Inl TransportFailure, s1)
           | Inr fs' \<Rightarrow> (Inr (), s1\<lparr>disk := fs'\<rparr>)))"

definition isTarball :: "string \<Rightarrow> bool" where
  "isTarball f = (prefix ''xspect-build-python-'' f \<and> suffix ''.tgz'' f)"

text \<open>
  The second half of \<^verbatim>\<open>download\<close>: find the tarball in \<open>cwd\<close>, read it, decompress it, remove
  the file, and return the tar stream (the \<^verbatim>\<open>Archive\<close> object wraps it).
\<close>

definition readTarball :: "env \<Rightarrow> path \<Rightarrow> state \<Rightarrow> (error + bytes) \<times> state" where
  "readTarball env cwd s =
     (case readdirSync (disk s) cwd of
        Inl e \<Rightarrow> (Inl (IOFailure e), s)
      | Inr files \<Rightarrow>
          (case find isTarball (map fst files) of
             None \<Rightarrow> (Inl TarballNotFound, s)
           | Some tgzFileName \<Rightarrow>
               (let tgzFile = cwd @ [tgzFileName] in
                case readFileSync (disk s) tgzFile of
                  Inl e \<Rightarrow> (Inl (IOFailure e), s)
                | Inr tgzData \<Rightarrow>
                    (case gunzipSync env tgzData of
                       None \<Rightarrow> (Inl CorruptArchive, s)
                     | Some tarData \<Rightarrow>
                         (case rmSync (disk s) tgzFile of
                            Inl e \<Rightarrow> (Inl (IOFailure e), s)
                          | Inr fs' \<Rightarrow> (Inr tarData, s\<lparr>disk := fs'\<rparr>))))))"

definition download :: "env \<Rightarrow> string \<Rightarrow> state \<Rightarrow> (error + bytes) \<times> state" where
  "download env version s =
     (if version = [] then (Inl VersionRequired, s)
      else case getPlatformPackageName env of
             None \<Rightarrow> (Inl (UnsupportedPlatform (platformKey (platform env) (arch env))), s)
           | Some packageName \<Rightarrow>
               (let cwd = tmpdir env in
                case npmPack env packageName version cwd s of
                  (Inl e, s1) \<Rightarrow> (Inl e, s1)
                | (Inr u, s1) \<Rightarrow> readTarball env cwd s1))"

section \<open>The Python runtime package: extraction\<close>

text \<open>\<^verbatim>\<open>chmodSync\<close>: the operating system may refuse it; otherwise the bits of the file change.\<close>

definition chmodSync :: "env \<Rightarrow> node \<Rightarrow> path \<Rightarrow> nat \<Rightarrow> errno + node" where
  "chmodSync env fs p m = (if chmod_denied env p then Inl EPERM else chmodFile fs p m)"

text \<open>
  \<^verbatim>\<open>archive.unpack(dest)\<close> of the tar library: the entries are written below \<open>dest\<close> in the
  order of the stream, parents are created as needed, and the first entry that cannot be read
  or written stops the unpacking with everything before it left on disk.
\<close>

fun unpackEntry :: "path \<Rightarrow> tar_entry \<Rightarrow> node \<Rightarrow> (error + unit) \<times> node" where
  "unpackEntry dest TarCorrupt fs = (Inl CorruptArchive, fs)"
| "unpackEntry dest (TarDir p) fs =
     (case mkdirSync fs (dest @ p) of
        (Inl e, fs1) \<Rightarrow> (Inl (IOFailure e), fs1)
      | (Inr u, fs1) \<Rightarrow> (Inr (), fs1))"
| "unpackEntry dest (TarFile p b m) fs =
     (if p = [] then (Inr (), fs)
      else case mkdirSync fs (dest @ butlast p) of
             (Inl e, fs1) \<Rightarrow> (Inl (IOFailure e), fs1)
           | (Inr u, fs1) \<Rightarrow>
               (case writeFile fs1 (dest @ p) b m of
                  Inl e \<Rightarrow> (Inl (IOFailure e), fs1)
                | Inr fs2 \<Rightarrow> (Inr (), fs2)))"
| "unpackEntry dest (TarLink p a t) fs =
     (if p = [] then (Inr (), fs)
      else case mkdirSync fs (dest @ butlast p) of
             (Inl e, fs1) \<Rightarrow> (Inl (IOFailure e), fs1)
           | (Inr u, fs1) \<Rightarrow>
               (case lresolve fs1 (dest @ p) of
                  None \<Rightarrow> (Inl (IOFailure ENOENT), fs1)
                | Some q \<Rightarrow>
                    (case lstat fs1 q of
                       Some (Dir es) \<Rightarrow> (Inl (IOFailure EISDIR), fs1)
                     | _ \<Rightarrow> (Inr (), put q (Link a t) fs1))))"

fun unpack :: "tar_entry list \<Rightarrow> path \<Rightarrow> node \<Rightarrow> (error + unit) \<times> node" where
  "unpack [] dest fs = (Inr (), fs)"
| "unpack (e # es) dest fs =
     (case unpackEntry dest e fs of
        (Inl err, fs1) \<Rightarrow> (Inl err, fs1)
      | (Inr u, fs1) \<Rightarrow> unpack es dest fs1)"

text \<open>
  \<^verbatim>\<open>fixPermissions(dir)\<close> walks the tree below \<open>dir\<close>. The recursion follows the directories it
  finds on disk, so the function carries fuel for the depth; \<open>None\<close> is running out of it.
\<close>

fun fixPermissions_fuel :: "nat \<Rightarrow> env \<Rightarrow> path \<Rightarrow> node \<Rightarrow> ((error + unit) \<times> node) option"
  and fixEntries :: "nat \<Rightarrow> env \<Rightarrow> path \<Rightarrow> (string \<times> node) list \<Rightarrow> node \<Rightarrow> ((error + unit) \<times> node) option"
where
  "fixPermissions_fuel 0 env dir fs = None"
| "fixPermissions_fuel (Suc n) env dir fs =
     (if \<not> existsSync fs dir then Some (Inr (), fs)
      else case readdirSync fs dir of
             Inl e \<Rightarrow> Some (Inl (IOFailure e), fs)
           | Inr entries \<Rightarrow> fixEntries n env dir entries fs)"
| "fixEntries n env dir [] fs = Some (Inr (), fs)"
| "fixEntries n env dir ((name, x) # es) fs =
     (case x of
        Dir sub \<Rightarrow>
          (case fixPermissions_fuel n env (dir @ [name]) fs of
             None \<Rightarrow> None
           | Some (Inl e, fs1) \<Rightarrow> Some (Inl e, fs1)
           | Some (Inr u, fs1) \<Rightarrow> fixEntries n env dir es fs1)
      | File b m \<Rightarrow>
          fixEntries n env dir es
            (case chmodSync env fs (dir @ [name]) 493 of Inl e \<Rightarrow> fs | Inr fs1 \<Rightarrow> fs1)
      | Link a t \<Rightarrow> fixEntries n env dir es fs)"

text \<open>The depth of a tree bounds the depth of every walk over it.\<close>

fun height :: "node \<Rightarrow> nat" where
  "height (File b m) = 0"
| "height (Link a t) = 0"
| "height (Dir es) = Suc (fold max (map (\<lambda>(c, n). height n) es) 0)"

definition fixPermissions :: "env \<Rightarrow> path \<Rightarrow> node \<Rightarrow> (error + unit) \<times> node" where
  "fixPermissions env dir fs =
     (case fixPermissions_fuel (Suc (height fs)) env dir fs of
        None \<Rightarrow> (Inl OutOfFuel, fs)
      | Some r \<Rightarrow> r)"

definition CACHE_DIR :: "env \<Rightarrow> path" where
  "CACHE_DIR env = path_join (homedir env) [''.xspect-build'', ''python'']"

text \<open>
  The three paths \<^verbatim>\<open>extract(dest, options)\<close> computes first; \<open>dest\<close> is \<open>None\<close> when the
  caller passes none.
\<close>

definition destPath :: "env \<Rightarrow> path option \<Rightarrow> string \<Rightarrow> path" where
  "destPath env dest version =
     (case dest of Some d \<Rightarrow> d | None \<Rightarrow> path_join (CACHE_DIR env) [version])"

definition pythonDir :: "env \<Rightarrow> path option \<Rightarrow> string \<Rightarrow> path" where
  "pythonDir env dest version = path_join (destPath env dest version) [''package'', ''python'']"

definition markerFile :: "env \<Rightarrow> path option \<Rightarrow> string \<Rightarrow> path" where
  "markerFile env dest version = path_join (destPath env dest version) [''package.json'']"

text \<open>\<^verbatim>\<open>extract(dest, options)\<close>. The mode \<^verbatim>\<open>0o755\<close> is 493.\<close>

definition extract_py :: "env \<Rightarrow> path option \<Rightarrow> string \<Rightarrow> state \<Rightarrow> (error + path) \<times> state" where
  "extract_py env dest version s =
     (if version = [] then (Inl VersionRequired, s)
      else if existsSync (disk s) (markerFile env dest version)
      then (Inr (pythonDir env dest version), s)
      else
        (case download env version s of
           (Inl e, s1) \<Rightarrow> (Inl e, s1)
         | (Inr archive, s1) \<Rightarrow>
             (case mkdirSync (disk s1) (destPath env dest version) of
                (Inl e, fs2) \<Rightarrow> (Inl (IOFailure e), s1\<lparr>disk := fs2\<rparr>)
              | (Inr u2, fs2) \<Rightarrow>
                  (case unpack (tar_entries env archive) (destPath env dest version) fs2 of
                     (Inl e, fs3) \<Rightarrow> (Inl e, s1\<lparr>disk := fs3\<rparr>)
                   | (Inr u3, fs3) \<Rightarrow>
                       (case fixPermissions env (path_join (pythonDir env dest version) [''bin'']) fs3 of
                          (Inl e, fs4) \<Rightarrow> (Inl e, s1\<lparr>disk := fs4\<rparr>)
                        | (Inr u4, fs4) \<Rightarrow>
                            (Inr (pythonDir env dest version), s1\<lparr>disk := fs4\<rparr>))))))"

definition getPythonPath :: "env \<Rightarrow> path option \<Rightarrow> string \<Rightarrow> state \<Rightarrow> (error + path) \<times> state" where
  "getPythonPath env dest version s =
     (if version = [] then (Inl VersionRequired, s) else extract_py env dest version s)"

section \<open>The patchelf package: locating the installed binary\<close>

definition platformPackageMap_patchelf :: "(string \<times> string) list" where
  "platformPackageMap_patchelf =
     [(''darwin-arm64'', ''@xspect-build/patchelf-darwin-arm64''),
      (''darwin-x64'', ''@xspect-build/patchelf-darwin-x64''),
      (''linux-arm64'', ''@xspect-build/patchelf-linux-arm64''),
      (''linux-arm'', ''@xspect-build/patchelf-linux-arm''),
      (''linux-x64'', ''@xspect-build/patchelf-linux-x64'')]"

text \<open>
  \<^verbatim>\<open>require.resolve\<close> throws when the module is not found; the \<^verbatim>\<open>catch\<close> swallows it.
  \<^verbatim>\<open>path.dirname\<close> of the resolved file drops its last component.
\<close>

definition findBinaryPath :: "env \<Rightarrow> node \<Rightarrow> path option" where
  "findBinaryPath env fs =
     (case map_of platformPackageMap_patchelf (platformKey (platform env) (arch env)) of
        None \<Rightarrow> None
      | Some packageName \<Rightarrow>
          (let possiblePaths =
                 [path_join (dirname env) [''..'', ''node_modules'', packageName, ''bin'', ''patchelf''],
                  path_join (dirname env) [''..'', ''..'', packageName, ''bin'', ''patchelf''],
                  path_join (dirname env)
                    [''..'', ''..'', ''.pnpm'', ''node_modules'', packageName, ''bin'', ''patchelf'']]
           in case find (existsSync fs) possiblePaths of
                Some binPath \<Rightarrow> Some binPath
              | None \<Rightarrow>
                  (case require_resolve env (packageName @ ''/package.json'') of
                     None \<Rightarrow> None
                   | Some packagePath \<Rightarrow>
                       (let binPath = path_join (butlast packagePath) [''bin'', ''patchelf'']
                        in if existsSync fs binPath then Some binPath else None))))"

definition getPatchelfPath :: "env \<Rightarrow> node \<Rightarrow> error + path" where
  "getPatchelfPath env fs =
     (case findBinaryPath env fs of
        None \<Rightarrow> Inl (NotFound (platformKey (platform env) (arch env)))
      | Some binaryPath \<Rightarrow> Inr binaryPath)"

text \<open>\<^verbatim>\<open>accessSync(p, fs.constants.X_OK)\<close> throws unless the path resolves and may be executed.\<close>

definition accessSync_X :: "env \<Rightarrow> node \<Rightarrow> path \<Rightarrow> errno + unit" where
  "accessSync_X env fs p =
     (case stat fs p of
        None \<Rightarrow> Inl ENOENT
      | Some x \<Rightarrow> if access_x env x then Inr () else Inl EACCES)"

definition isPatchelfAvailable :: "env \<Rightarrow> node \<Rightarrow> bool" where
  "isPatchelfAvailable env fs =
     (case getPatchelfPath env fs of
        Inl e \<Rightarrow> False
      | Inr binaryPath \<Rightarrow>
          (case accessSync_X env fs binaryPath of
             Inl e \<Rightarrow> False
           | Inr u \<Rightarrow> True))"

definition getBinDir :: "env \<Rightarrow> node \<Rightarrow> error + path" where
  "getBinDir env fs =
     (case getPatchelfPath env fs of
        Inl e \<Rightarrow> Inl e
      | Inr binaryPath \<Rightarrow> Inr (butlast binaryPath))"

section \<open>The build script: replacing symbolic links\<close>




section \<open>A concrete host\<close>

text \<open>
  A Linux x64 host with an empty temporary directory. Its registry serves, for every version
  but \<^verbatim>\<open>0.0.0\<close>, a tarball named after the version; the tarball of version \<^verbatim>\<open>bad\<close> is not a
  gzip stream. Every archive has the layout \<^verbatim>\<open>npm pack\<close> produces: a manifest, an interpreter
  below \<^verbatim>\<open>python/bin\<close> and a helper below \<^verbatim>\<open>python/libexec\<close>, all below \<^verbatim>\<open>package/\<close>.
\<close>

definition host :: env where
  "host =
     \<lparr>platform = ''linux'', arch = ''x64'', homedir = [''home'', ''u''], tmpdir = [''tmp''],
      dirname = [''app'', ''node_modules'', ''@xspect-build'', ''patchelf'', ''lib''],
      npm_pack = (\<lambda>name v. if v = ''0.0.0'' then None
                   else Some (''xspect-build-python-linux-x64-'' @ v @ ''.tgz'',
                              if v = ''bad'' then [0] else 31 # 139 # map of_char v)),
      gunzipSync = (\<lambda>b. case b of
                           x # y # rest \<Rightarrow> if x = 31 \<and> y = 139 then Some rest else None
                         | _ \<Rightarrow> None),
      tar_entries = (\<lambda>b. [TarFile [''package'', ''package.json''] [123, 125] 420,
                           TarFile [''package'', ''python'', ''bin'', ''python3''] b 420,
                           TarFile [''package'', ''python'', ''libexec'', ''helper''] [1] 420]),
      require_resolve = (\<lambda>m. None),
      chmod_denied = (\<lambda>p. False),
      access_x = (\<lambda>x. case x of File b m \<Rightarrow> odd (m div 64) | _ \<Rightarrow> True)\<rparr>"

definition disk0 :: node where
  "disk0 = Dir [(''tmp'', Dir []), (''home'', Dir [(''u'', Dir [])])]"

definition s0 :: state where
  "s0 = \<lparr>disk = disk0, npm_log = []\<rparr>"

text \<open>
  The install locations \<open>findBinaryPath\<close> probes, in its order, as one list: the three joined
  paths, then the location Node's module resolution reports, if it reports one.
\<close>

definition candidatePaths :: "env \<Rightarrow> string \<Rightarrow> path list" where
  "candidatePaths env packageName =
     [path_join (dirname env) [''..'', ''node_modules'', packageName, ''bin'', ''patchelf''],
      path_join (dirname env) [''..'', ''..'', packageName, ''bin'', ''patchelf''],
      path_join (dirname env)
        [''..'', ''..'', ''.pnpm'', ''node_modules'', packageName, ''bin'', ''patchelf'']] @
     (case require_resolve env (packageName @ ''/package.json'') of
        None \<Rightarrow> []
      | Some packagePath \<Rightarrow> [path_join (butlast packagePath) [''bin'', ''patchelf'']])"

text \<open>
  A disk on which the first install location of the patchelf binary is a directory and the
  second a regular executable file, and one on which only a file without any execute bit
  is installed.
\<close>

definition disk_patchelf :: node where
  "disk_patchelf =
     Dir [(''app'', Dir [(''node_modules'', Dir [(''@xspect-build'',
       Dir [(''patchelf'', Dir [(''lib'', Dir []), (''node_modules'', Dir [(''@xspect-build'',
              Dir [(''patchelf-linux-x64'', Dir [(''bin'', Dir [(''patchelf'', Dir [])])])])])]),
            (''@xspect-build'',
              Dir [(''patchelf-linux-x64'',
                Dir [(''bin'', Dir [(''patchelf'', File [127, 69, 76, 70] 493)])])])])])])]"

definition disk_patchelf_plain :: node where
  "disk_patchelf_plain =
     Dir [(''app'', Dir [(''node_modules'', Dir [(''@xspect-build'',
       Dir [(''patchelf'', Dir [(''lib'', Dir [])]),
            (''@xspect-build'',
              Dir [(''patchelf-linux-x64'',
                Dir [(''bin'', Dir [(''patchelf'', File [127, 69, 76, 70] 420)])])])])])])]"

text \<open>
  A disk whose temporary directory still holds the tarball of an earlier run, beside two files
  that pass only one of the two name tests and sort before it, and the name of the platform
  package of the concrete host.
\<close>

definition disk_leftover :: node where
  "disk_leftover =
     Dir [(''tmp'', Dir [(''xspect-build-python-linux-x64-3.8.0.tgz'', File [31, 139, 7] 420),
                         (''xspect-build-python-linux-x64-3.10.0.tgz.part'', File [31, 139, 8] 420),
                         (''python-3.7.tgz'', File [31, 139, 9] 420)]),
          (''home'', Dir [(''u'', Dir [])])]"

definition pkg_x64 :: string where
  "pkg_x64 = ''@xspect-build/python-linux-x64''"

section \<open>Notions for stating what a walk over the tree changes\<close>

text \<open>
  The kind of a node forgets permission bits and directory contents. Two trees have the same
  shape when every path has the same kind in both. \<open>only_under d\<close> relates a tree to a later
  one that differs at most at and below \<open>d\<close> (the directories above \<open>d\<close> are still
  directories). \<open>fixed\<close> is what \<open>fixPermissions\<close> does to the regular files below the
  real directory \<open>rp\<close> of \<open>dir\<close>.
\<close>

fun kind :: "node \<Rightarrow> node" where
  "kind (File b m) = File b 0"
| "kind (Dir es) = Dir []"
| "kind (Link a t) = Link a t"

definition shape_eq :: "node \<Rightarrow> node \<Rightarrow> bool" where
  "shape_eq fs fs' = (\<forall>p. map_option kind (lstat fs' p) = map_option kind (lstat fs p))"

definition only_under :: "path \<Rightarrow> node \<Rightarrow> node \<Rightarrow> bool" where
  "only_under d fs fs' =
     (\<forall>p. \<not> prefix d p \<longrightarrow>
        lstat fs' p = lstat fs p \<or>
        (prefix p d \<and> (\<exists>es es'. lstat fs p = Some (Dir es) \<and> lstat fs' p = Some (Dir es'))))"

definition fixed :: "env \<Rightarrow> path \<Rightarrow> path \<Rightarrow> node \<Rightarrow> node \<Rightarrow> bool" where
  "fixed env dir rp fs fs' =
     (\<forall>rel b m. lstat fs (rp @ rel) = Some (File b m) \<longrightarrow>
        lstat fs' (rp @ rel) = Some (File b (if chmod_denied env (dir @ rel) then m else 493)))"

section \<open>The layout of the archives npm serves\<close>

text \<open>
  A tree without symbolic links. Tarballs made by \<^verbatim>\<open>npm pack\<close> hold no links, and every entry
  lies below the one top-level directory \<^verbatim>\<open>package\<close>; a stream may still break off (a corrupt
  entry) at any point.
\<close>

fun nolinks :: "node \<Rightarrow> bool" where
  "nolinks (File b m) = True"
| "nolinks (Link a t) = False"
| "nolinks (Dir es) = (\<forall>(c, n) \<in> set es. nolinks n)"

fun under_package :: "path \<Rightarrow> bool" where
  "under_package [] = False"
| "under_package (c # r) = (c = ''package'')"

fun npm_entry :: "tar_entry \<Rightarrow> bool" where
  "npm_entry (TarFile p b m) = under_package p"
| "npm_entry (TarDir p) = under_package p"
| "npm_entry (TarLink p a t) = False"
| "npm_entry TarCorrupt = True"

text \<open>
  The part of the disk a call of \<open>extract_py\<close> works on: the directories on the way to the
  destination, everything below the destination, the directories on the way to the temporary
  directory, and the tarball names in the temporary directory. \<open>linkfree Z\<close> says that no path
  of a set \<open>Z\<close> is a symbolic link; links anywhere else on the disk are of no concern. The
  invariant of a destination that holds no marker: no link in that part of the disk, and
  nothing at \<open>m\<close>.
\<close>

definition zone :: "env \<Rightarrow> path option \<Rightarrow> string \<Rightarrow> path \<Rightarrow> bool" where
  "zone env dest v q =
     (prefix q (destPath env dest v) \<or> prefix (destPath env dest v) q \<or>
      prefix q (tmpdir env) \<or>
      (q \<noteq> [] \<and> butlast q = tmpdir env \<and> isTarball (last q)))"

definition linkfree :: "(path \<Rightarrow> bool) \<Rightarrow> node \<Rightarrow> bool" where
  "linkfree Z fs = (\<forall>q a t. Z q \<longrightarrow> lstat fs q \<noteq> Some (Link a t))"

definition closed_up :: "(path \<Rightarrow> bool) \<Rightarrow> bool" where
  "closed_up Z = (\<forall>q r. Z (q @ r) \<longrightarrow> Z q)"

definition unmarked :: "(path \<Rightarrow> bool) \<Rightarrow> path \<Rightarrow> node \<Rightarrow> bool" where
  "unmarked Z m fs = (linkfree Z fs \<and> lstat fs m = None)"

text \<open>
  The concrete host with an archive stream that breaks off after the manifest, once in the
  layout of \<^verbatim>\<open>npm pack\<close> and once with the manifest at the top level of the archive; and a
  disk with a symbolic link that lies on none of the paths \<open>extract_py\<close> works on.
\<close>

definition host_truncated :: env where
  "host_truncated =
     host\<lparr>tar_entries := (\<lambda>b. [TarFile [''package'', ''package.json''] [123, 125] 420, TarCorrupt])\<rparr>"

definition host_flat_truncated :: env where
  "host_flat_truncated =
     host\<lparr>tar_entries := (\<lambda>b. [TarFile [''package.json''] [123, 125] 420, TarCorrupt])\<rparr>"

definition disk_usr :: node where
  "disk_usr =
     Dir [(''tmp'', Dir []), (''home'', Dir [(''u'', Dir [])]),
          (''usr'', Dir [(''bin'', Dir [])]), (''bin'', Link False [Name ''usr'', Name ''bin''])]"

section \<open>Notions for the replacement of links\<close>

text \<open>
  What a walk of \<open>replaceSymlinks\<close> keeps and what it achieves. \<open>kept\<close>: every regular file
  and every directory without links inside that stands on a path of real directories stays
  as it is. \<open>absent fs q\<close>: the path \<open>q\<close> names nothing in a real directory; \<open>absent_kept\<close>: such
  a path still names nothing afterwards. \<open>replaced dir\<close>: of a link at or below \<open>dir\<close>, with
  its text resolved lexically against the directory that holds the link, a target that is a
  regular file or a directory without links has been copied to the place of the link, and a
  target that does not exist (some directory on the way to it has no such entry) has left
  the place of the link empty.
\<close>

definition kept :: "node \<Rightarrow> node \<Rightarrow> bool" where
  "kept fs fs' = (\<forall>q x. lstat fs q = Some x \<longrightarrow> nolinks x \<longrightarrow> lstat fs' q = Some x)"





section \<open>Lemmas about the file system\<close>

lemma find_append:
  "find P (xs @ ys) = (case find P xs of None \<Rightarrow> find P ys | Some x \<Rightarrow> Some x)"
  by (induction xs) auto

lemma lstat_append:
  "lstat fs (p @ q) = (case lstat fs p of None \<Rightarrow> None | Some n \<Rightarrow> lstat n q)"
  by (induction fs p rule: lstat.induct) (auto split: option.splits)

lemma lstat_leaf:
  "lstat (File b m) p = (if p = [] then Some (File b m) else None)"
  "lstat (Link a t) p = (if p = [] then Some (Link a t) else None)"
  "lstat (Dir []) p = (if p = [] then Some (Dir []) else None)"
  by (cases p; simp)+

lemma lstat_put_same:
  "lstat fs d = Some (Dir es) \<Longrightarrow> lstat (put (d @ [c]) x fs) (d @ [c]) = Some x"
proof (induction d arbitrary: fs es)
  case Nil
  then show ?case by (auto simp: update_conv' split: option.splits)
next
  case (Cons a d)
  then show ?case
    by (cases fs) (auto simp: update_conv' split: option.splits)
qed

lemma lstat_put_other:
  "\<not> prefix p q \<Longrightarrow>
   lstat (put p x fs) q =
     (if prefix q p then map_option (put (drop (length q) p) x) (lstat fs q) else lstat fs q)"
proof (induction p arbitrary: q fs)
  case Nil
  then show ?case by simp
next
  case (Cons c p)
  show ?case
  proof (cases q)
    case Nil
    then show ?thesis by simp
  next
    case (Cons d q')
    with Cons.prems Cons.IH [of q'] show ?thesis
      by (cases fs) (auto simp: update_conv' split: option.splits)
  qed
qed

lemma lstat_put_below:
  "lstat fs d = Some (Dir es) \<Longrightarrow> lstat (put (d @ [c]) x fs) (d @ c # r) = lstat x r"
  using lstat_put_same [of fs d es c x] lstat_append [of "put (d @ [c]) x fs" "d @ [c]" r]
  by simp

lemma lstat_remove_other:
  "\<not> prefix p q \<Longrightarrow>
   lstat (remove p fs) q =
     (if prefix q p then map_option (remove (drop (length q) p)) (lstat fs q) else lstat fs q)"
proof (induction p arbitrary: q fs)
  case Nil
  then show ?case by simp
next
  case (Cons c p)
  show ?case
  proof (cases q)
    case Nil
    then show ?thesis by simp
  next
    case (Cons d q')
    with Cons.prems Cons.IH [of q'] show ?thesis
      by (cases fs) (auto simp: update_conv' delete_conv' split: option.splits)
  qed
qed

lemma lstat_remove_same:
  "p \<noteq> [] \<Longrightarrow> prefix p q \<Longrightarrow> lstat (remove p fs) q = None"
proof (induction p arbitrary: q fs)
  case Nil
  then show ?case by simp
next
  case (Cons c p)
  then obtain q' where q: "q = c # q'" and pq: "prefix p q'"
    by (cases q) auto
  show ?case
  proof (cases "p = []")
    case True
    then show ?thesis using q by (cases fs) (auto simp: delete_conv' split: option.splits)
  next
    case False
    then show ?thesis using q pq Cons.IH [of q']
      by (cases fs) (auto simp: update_conv' split: option.splits)
  qed
qed

lemma walk_physical_prefix:
  "lstat fs (cur @ p) = Some x \<Longrightarrow> (\<forall>a t. x \<noteq> Link a t) \<Longrightarrow>
   walk k fs cur (map Name p @ rest) = walk k fs (cur @ p) rest"
proof (induction p arbitrary: cur)
  case Nil
  then show ?case by simp
next
  case (Cons c p)
  from Cons.prems(1) obtain y where y: "lstat fs (cur @ [c]) = Some y" "lstat y p = Some x"
    using lstat_append [of fs "cur @ [c]" p] by (auto split: option.splits)
  have "\<forall>a t. y \<noteq> Link a t"
    using y(2) Cons.prems(2) by (cases p) auto
  moreover have "walk k fs (cur @ [c]) (map Name p @ rest) = walk k fs ((cur @ [c]) @ p) rest"
    using Cons.IH [of "cur @ [c]"] Cons.prems by simp
  ultimately show ?case using y(1) by (cases y) auto
qed

lemma realpath_physical:
  "lstat fs p = Some x \<Longrightarrow> (\<forall>a t. x \<noteq> Link a t) \<Longrightarrow> realpath fs p = Some p"
  using walk_physical_prefix [of fs "[]" p x MAXSYMLINKS "[]"] by (simp add: realpath_def)

lemma stat_physical:
  "lstat fs p = Some x \<Longrightarrow> (\<forall>a t. x \<noteq> Link a t) \<Longrightarrow> stat fs p = Some x"
  by (simp add: stat_def realpath_physical)

lemma lresolve_physical:
  "lstat fs d = Some (Dir es) \<Longrightarrow> lresolve fs (d @ [c]) = Some (d @ [c])"
  by (simp add: lresolve_def realpath_physical)

lemma stat_missing:
  "lstat fs d = Some (Dir es) \<Longrightarrow> map_of es c = None \<Longrightarrow> stat fs (d @ [c]) = None"
  using walk_physical_prefix [of fs "[]" d "Dir es" MAXSYMLINKS "[Name c]"]
  by (simp add: stat_def realpath_def lstat_append)

lemma lstat_child:
  "lstat fs d = Some (Dir es) \<Longrightarrow> lstat fs (d @ [c]) = map_of es c"
  by (simp add: lstat_append split: option.splits)

lemma lstat_put_parent:
  "lstat fs d = Some (Dir es) \<Longrightarrow> lstat (put (d @ [c]) x fs) d = Some (Dir (AList.update c x es))"
  using lstat_put_other [of "d @ [c]" d x fs]
  by (auto split: option.splits)

lemma lstat_remove_parent:
  "lstat fs d = Some (Dir es) \<Longrightarrow> lstat (remove (d @ [c]) fs) d = Some (Dir (AList.delete c es))"
  using lstat_remove_other [of "d @ [c]" d fs]
  by auto

lemma distinct_map_insort_key:
  "distinct (map f (insort_key f x xs)) \<longleftrightarrow> f x \<notin> f ` set xs \<and> distinct (map f xs)"
  by (induction xs) (auto simp: set_insort_key)

lemma distinct_map_sort_key: "distinct (map f (sort_key f xs)) \<longleftrightarrow> distinct (map f xs)"
proof (induction xs)
  case Nil
  then show ?case by simp
next
  case (Cons x xs)
  have "sort_key f (x # xs) = insort_key f x (sort_key f xs)"
    by (simp add: sort_key_def)
  then show ?case using Cons by (simp add: distinct_map_insort_key)
qed

lemma set_listing: "set (listing es) = set (AList.clearjunk es)"
  by (simp add: listing_def)

lemma distinct_listing: "distinct (map fst (listing es))"
  by (simp add: listing_def distinct_map_sort_key distinct_clearjunk)

lemma sorted_listing: "sorted (map fst (listing es))"
  by (simp add: listing_def sorted_sort_key)

lemma map_of_listing: "map_of (listing es) c = map_of es c"
proof -
  have a: "map_of (listing es) c = Some v \<longleftrightarrow> (c, v) \<in> set (listing es)" for v
    using distinct_listing [of es] by (rule map_of_eq_Some_iff)
  have b: "map_of (AList.clearjunk es) c = Some v \<longleftrightarrow> (c, v) \<in> set (AList.clearjunk es)" for v
    using distinct_clearjunk [of es] by (rule map_of_eq_Some_iff)
  have "map_of (listing es) c = Some v \<longleftrightarrow> map_of (AList.clearjunk es) c = Some v" for v
    unfolding a b by (simp only: set_listing)
  then have "map_of (listing es) c = map_of (AList.clearjunk es) c"
    by (metis option.exhaust)
  then show ?thesis by (simp only: map_of_clearjunk)
qed

lemma keys_listing: "c \<in> set (map fst (listing es)) \<longleftrightarrow> map_of es c \<noteq> None"
  using map_of_listing [of es c] by (metis map_of_eq_None_iff set_map)

lemma find_sorted_least:
  "sorted xs \<Longrightarrow> n \<in> set xs \<Longrightarrow> P n \<Longrightarrow> (\<forall>c \<in> set xs. P c \<longrightarrow> n \<le> c) \<Longrightarrow>
   find P xs = Some (n::'b::linorder)"
proof (induction xs)
  case Nil
  then show ?case by simp
next
  case (Cons x xs)
  show ?case
  proof (cases "P x")
    case True
    then have "n \<le> x" using Cons.prems(4) by simp
    moreover have "x \<le> n" using Cons.prems(1,2) by auto
    ultimately show ?thesis using True by simp
  next
    case False
    then have "n \<in> set xs" using Cons.prems(2,3) by auto
    then show ?thesis using False Cons by simp
  qed
qed

lemma find_listing_least:
  assumes "map_of es n \<noteq> None" and "P n"
    and "\<forall>c. map_of es c \<noteq> None \<longrightarrow> P c \<longrightarrow> n \<le> c"
  shows "find P (map fst (listing es)) = Some n"
  using assms keys_listing [of _ es]
  by (intro find_sorted_least sorted_listing) auto

lemma find_listing_none:
  assumes "\<forall>c. map_of es c \<noteq> None \<longrightarrow> \<not> P c"
  shows "find P (map fst (listing es)) = None"
  using assms keys_listing [of _ es] by (auto simp: find_None_iff)

lemma readdirSync_physical:
  "lstat fs d = Some (Dir es) \<Longrightarrow> readdirSync fs d = Inr (listing es)"
  by (simp add: readdirSync_def stat_physical)

lemma writeFile_physical:
  assumes "lstat fs d = Some (Dir es)"
    and "map_of es c = None \<or> (\<exists>b0 m0. map_of es c = Some (File b0 m0))"
  shows "writeFile fs (d @ [c]) b m = Inr (put (d @ [c]) (File b m) fs)"
proof -
  have l: "lstat fs (d @ [c]) = map_of es c"
    using assms(1) by (rule lstat_child)
  from assms(2) show ?thesis
  proof
    assume n: "map_of es c = None"
    then have "stat fs (d @ [c]) = None"
      using assms(1) by (simp add: stat_missing)
    then show ?thesis
      using n l assms(1) by (simp add: writeFile_def lresolve_physical)
  next
    assume "\<exists>b0 m0. map_of es c = Some (File b0 m0)"
    then obtain b0 m0 where f: "lstat fs (d @ [c]) = Some (File b0 m0)"
      using l by auto
    then show ?thesis
      by (simp add: writeFile_def stat_physical realpath_physical)
  qed
qed

lemma unlinkSync_physical:
  assumes "lstat fs d = Some (Dir es)"
  shows "unlinkSync fs (d @ [c]) =
     (case map_of es c of
        None \<Rightarrow> Inl ENOENT
      | Some (Dir sub) \<Rightarrow> Inl EISDIR
      | Some y \<Rightarrow> Inr (remove (d @ [c]) fs))"
  using assms lstat_child [OF assms, of c]
  by (simp add: unlinkSync_def lresolve_physical split: option.splits node.splits)

lemma stat_child_file:
  "lstat fs d = Some (Dir es) \<Longrightarrow> map_of es c = Some (File b m) \<Longrightarrow>
   stat fs (d @ [c]) = Some (File b m)"
  by (simp add: stat_physical lstat_child)

lemma find_Some_mem: "find P xs = Some x \<Longrightarrow> x \<in> set xs \<and> P x"
  by (induction xs) (auto split: if_splits)

lemma find_None_all: "find P xs = None \<Longrightarrow> x \<in> set xs \<Longrightarrow> \<not> P x"
  by (induction xs) (auto split: if_splits)

lemma shape_eq_refl: "shape_eq fs fs"
  by (simp add: shape_eq_def)

lemma shape_eq_trans: "shape_eq a b \<Longrightarrow> shape_eq b c \<Longrightarrow> shape_eq a c"
  by (simp add: shape_eq_def)

lemma kind_eq_Link: "kind x = Link a t \<longleftrightarrow> x = Link a t"
  by (cases x) auto

lemma kind_eq_Dir: "kind x = Dir [] \<longleftrightarrow> (\<exists>es. x = Dir es)"
  by (cases x) auto

lemma kind_eq_File: "kind x = File b 0 \<longleftrightarrow> (\<exists>m. x = File b m)"
  by (cases x) auto

lemma shape_eq_lstat:
  assumes "shape_eq fs fs'"
  shows "lstat fs' p = None \<longleftrightarrow> lstat fs p = None"
    and "(\<exists>es. lstat fs' p = Some (Dir es)) \<longleftrightarrow> (\<exists>es. lstat fs p = Some (Dir es))"
    and "(\<exists>m. lstat fs' p = Some (File b m)) \<longleftrightarrow> (\<exists>m. lstat fs p = Some (File b m))"
    and "lstat fs' p = Some (Link a t) \<longleftrightarrow> lstat fs p = Some (Link a t)"
proof -
  have e: "map_option kind (lstat fs' p) = map_option kind (lstat fs p)"
    using assms by (simp add: shape_eq_def)
  show "lstat fs' p = None \<longleftrightarrow> lstat fs p = None"
    using e by (cases "lstat fs' p"; cases "lstat fs p") auto
  show "(\<exists>es. lstat fs' p = Some (Dir es)) \<longleftrightarrow> (\<exists>es. lstat fs p = Some (Dir es))"
    using e by (cases "lstat fs' p"; cases "lstat fs p") (auto simp: kind_eq_Dir dest: sym)
  show "(\<exists>m. lstat fs' p = Some (File b m)) \<longleftrightarrow> (\<exists>m. lstat fs p = Some (File b m))"
    using e by (cases "lstat fs' p"; cases "lstat fs p") (auto simp: kind_eq_File dest: sym)
  show "lstat fs' p = Some (Link a t) \<longleftrightarrow> lstat fs p = Some (Link a t)"
    using e by (cases "lstat fs' p"; cases "lstat fs p") (auto simp: kind_eq_Link dest: sym)
qed

lemma walk_shape:
  "shape_eq fs fs' \<Longrightarrow> walk k fs' cur cs = walk k fs cur cs"
proof (induction k fs cur cs rule: walk.induct)
  case (1 k fs cur)
  show ?case by simp
next
  case (2 k fs cur rest)
  show ?case
  proof (cases "\<exists>es. lstat fs cur = Some (Dir es)")
    case True
    then obtain es where es: "lstat fs cur = Some (Dir es)" by blast
    then obtain es' where es': "lstat fs' cur = Some (Dir es')"
      using shape_eq_lstat(2) [OF "2.prems", of cur] by blast
    show ?thesis using es es' "2.IH" [OF es refl] "2.prems" by simp
  next
    case False
    then have "\<not> (\<exists>es. lstat fs' cur = Some (Dir es))"
      using shape_eq_lstat(2) [OF "2.prems", of cur] by blast
    with False show ?thesis by (auto split: option.splits node.splits)
  qed
next
  case (3 k fs cur c rest)
  let ?p = "cur @ [c]"
  show ?case
  proof (cases "lstat fs ?p")
    case None
    then have "lstat fs' ?p = None"
      using shape_eq_lstat(1) [OF "3.prems", of ?p] by simp
    with None show ?thesis by simp
  next
    case (Some y)
    show ?thesis
    proof (cases y)
      case (File b m)
      then obtain m' where "lstat fs' ?p = Some (File b m')"
        using Some shape_eq_lstat(3) [OF "3.prems", where p = "?p" and b = b] by blast
      then show ?thesis using Some File "3.IH"(1) [OF Some File] "3.prems" by simp
    next
      case (Dir es)
      then obtain es' where "lstat fs' ?p = Some (Dir es')"
        using Some shape_eq_lstat(2) [OF "3.prems", of ?p] by blast
      then show ?thesis using Some Dir "3.IH"(2) [OF Some Dir] "3.prems" by simp
    next
      case (Link a t)
      then have l: "lstat fs' ?p = Some (Link a t)"
        using Some shape_eq_lstat(4) [OF "3.prems", where p = "?p" and a = a and t = t] by simp
      show ?thesis
      proof (cases k)
        case 0
        then show ?thesis using Some Link l by simp
      next
        case (Suc k')
        then show ?thesis using Some Link l "3.IH"(3) [OF Some Link Suc] "3.prems" by simp
      qed
    qed
  qed
qed

lemma realpath_shape: "shape_eq fs fs' \<Longrightarrow> realpath fs' p = realpath fs p"
  by (simp add: realpath_def walk_shape)

lemma walk_append:
  "walk k fs cur xs = Some q \<Longrightarrow> \<exists>k'. \<forall>ys. walk k fs cur (xs @ ys) = walk k' fs q ys"
proof (induction k fs cur xs rule: walk.induct)
  case (1 k fs cur)
  then show ?case by auto
next
  case (2 k fs cur rest)
  from "2.prems" obtain es where es: "lstat fs cur = Some (Dir es)"
    by (auto split: option.splits node.splits)
  with "2.prems" have "walk k fs (butlast cur) rest = Some q" by simp
  from "2.IH" [OF es refl this] show ?case using es by simp
next
  case (3 k fs cur c rest)
  show ?case
  proof (cases "lstat fs (cur @ [c])")
    case None
    with "3.prems" show ?thesis by simp
  next
    case (Some y)
    show ?thesis
    proof (cases y)
      case (File b m)
      with Some "3.prems" have "walk k fs (cur @ [c]) rest = Some q" by simp
      from "3.IH"(1) [OF Some File this] show ?thesis using Some File by simp
    next
      case (Dir es)
      with Some "3.prems" have "walk k fs (cur @ [c]) rest = Some q" by simp
      from "3.IH"(2) [OF Some Dir this] show ?thesis using Some Dir by simp
    next
      case (Link a t)
      with Some "3.prems" obtain k' where k: "k = Suc k'"
        and w: "walk k' fs (if a then [] else cur) (t @ rest) = Some q"
        by (auto split: nat.splits)
      from "3.IH"(3) [OF Some Link k w] show ?thesis using Some Link k by simp
    qed
  qed
qed

lemma realpath_child:
  assumes "realpath fs d = Some rp" and "lstat fs (rp @ [c]) = Some x" and "\<forall>a t. x \<noteq> Link a t"
  shows "realpath fs (d @ [c]) = Some (rp @ [c])"
proof -
  from walk_append [of MAXSYMLINKS fs "[]" "map Name d" rp] assms(1)
  obtain k' where "walk MAXSYMLINKS fs [] (map Name d @ [Name c]) = walk k' fs rp [Name c]"
    by (auto simp: realpath_def)
  then show ?thesis
    using assms(2,3) by (cases x) (auto simp: realpath_def)
qed

lemma realpath_child_missing:
  assumes "realpath fs d = Some rp" and "lstat fs (rp @ [c]) = None"
  shows "realpath fs (d @ [c]) = None"
proof -
  from walk_append [of MAXSYMLINKS fs "[]" "map Name d" rp] assms(1)
  obtain k' where "walk MAXSYMLINKS fs [] (map Name d @ [Name c]) = walk k' fs rp [Name c]"
    by (auto simp: realpath_def)
  then show ?thesis
    using assms(2) by (auto simp: realpath_def)
qed

lemma only_under_refl: "only_under d fs fs"
  by (simp add: only_under_def)

lemma only_under_put: "only_under q fs (put q x fs)"
proof -
  have "lstat (put q x fs) p = lstat fs p \<or>
        (prefix p q \<and> (\<exists>es es'. lstat fs p = Some (Dir es) \<and> lstat (put q x fs) p = Some (Dir es')))"
    if np: "\<not> prefix q p" for p
  proof (cases "prefix p q")
    case False
    then show ?thesis using lstat_put_other [OF np, of x fs] by simp
  next
    case True
    then have ne: "drop (length p) q \<noteq> []" using np by (auto simp: prefix_def)
    then obtain c r where cr: "drop (length p) q = c # r" by (cases "drop (length p) q") auto
    have e: "lstat (put q x fs) p = map_option (put (c # r) x) (lstat fs p)"
      using lstat_put_other [OF np, of x fs] True cr by simp
    show ?thesis
    proof (cases "lstat fs p")
      case None
      then show ?thesis using e by simp
    next
      case (Some n)
      then show ?thesis using e True by (cases n) (auto split: option.splits)
    qed
  qed
  then show ?thesis by (simp add: only_under_def)
qed

lemma only_under_remove: "only_under q fs (remove q fs)"
proof -
  have "lstat (remove q fs) p = lstat fs p \<or>
        (prefix p q \<and> (\<exists>es es'. lstat fs p = Some (Dir es) \<and> lstat (remove q fs) p = Some (Dir es')))"
    if np: "\<not> prefix q p" for p
  proof (cases "prefix p q")
    case False
    then show ?thesis using lstat_remove_other [OF np, of fs] by simp
  next
    case True
    then have ne: "drop (length p) q \<noteq> []" using np by (auto simp: prefix_def)
    then obtain c r where cr: "drop (length p) q = c # r" by (cases "drop (length p) q") auto
    have e: "lstat (remove q fs) p = map_option (remove (c # r)) (lstat fs p)"
      using lstat_remove_other [OF np, of fs] True cr by simp
    show ?thesis
    proof (cases "lstat fs p")
      case None
      then show ?thesis using e by simp
    next
      case (Some n)
      then show ?thesis using e True by (cases n) (auto split: option.splits)
    qed
  qed
  then show ?thesis by (simp add: only_under_def)
qed

lemma prefix_comparable: "prefix a d \<Longrightarrow> prefix b d \<Longrightarrow> prefix a b \<or> prefix b a"
  by (metis prefix_same_cases)

lemma only_under_mono:
  assumes "prefix d' d" and "only_under d fs fs'"
  shows "only_under d' fs fs'"
proof -
  have "lstat fs' p = lstat fs p \<or>
        (prefix p d' \<and> (\<exists>es es'. lstat fs p = Some (Dir es) \<and> lstat fs' p = Some (Dir es')))"
    if np: "\<not> prefix d' p" for p
  proof -
    have "\<not> prefix d p" using np assms(1) by (meson prefix_order.trans)
    with assms(2) have "lstat fs' p = lstat fs p \<or>
        (prefix p d \<and> (\<exists>es es'. lstat fs p = Some (Dir es) \<and> lstat fs' p = Some (Dir es')))"
      by (simp add: only_under_def)
    moreover have "prefix p d'" if "prefix p d"
      using prefix_comparable [OF that assms(1)] np by blast
    ultimately show ?thesis by blast
  qed
  then show ?thesis by (simp add: only_under_def)
qed

lemma only_under_trans:
  assumes "only_under d a b" and "only_under d b c"
  shows "only_under d a c"
proof -
  have "lstat c p = lstat a p \<or>
        (prefix p d \<and> (\<exists>es es'. lstat a p = Some (Dir es) \<and> lstat c p = Some (Dir es')))"
    if np: "\<not> prefix d p" for p
    using assms np unfolding only_under_def by (metis option.inject)
  then show ?thesis by (simp add: only_under_def)
qed

lemma npmPack_physical:
  assumes "lstat (disk s) d = Some (Dir es)"
    and "npm_pack env pkg v = Some (name, b)"
    and "map_of es name = None \<or> (\<exists>b0 m0. map_of es name = Some (File b0 m0))"
  shows "npmPack env pkg v d s =
     (Inr (), s\<lparr>npm_log := npm_log s @ [(pkg, v)], disk := put (d @ [name]) (File b 420) (disk s)\<rparr>)"
  using assms writeFile_physical [of "disk s" d es name b 420]
  by (simp add: npmPack_def)

lemma readTarball_physical:
  assumes "lstat (disk s) d = Some (Dir es)"
    and "find isTarball (map fst (listing es)) = Some name"
    and "map_of es name = Some (File b m)"
  shows "readTarball env d s =
     (case gunzipSync env b of
        None \<Rightarrow> (Inl CorruptArchive, s)
      | Some t \<Rightarrow> (Inr t, s\<lparr>disk := remove (d @ [name]) (disk s)\<rparr>))"
  using assms readdirSync_physical [of "disk s" d es] stat_child_file [of "disk s" d es name b m]
    unlinkSync_physical [of "disk s" d es name]
  by (simp add: readTarball_def readFileSync_def rmSync_def split: option.splits)

lemma put_Dir_is_Dir: "p \<noteq> [] \<Longrightarrow> \<exists>es'. put p x (Dir es) = Dir es'"
  by (cases p) (auto split: option.splits)

lemma put_keeps_Dir:
  assumes "lstat fs d = Some (Dir es)" and "lstat fs q = None \<or> (\<exists>y. lstat fs q = Some y \<and> (\<forall>sub. y \<noteq> Dir sub))"
  shows "\<exists>es'. lstat (put q x fs) d = Some (Dir es')"
proof -
  have np: "\<not> prefix q d"
  proof
    assume "prefix q d"
    then obtain r where r: "d = q @ r" by (auto simp: prefix_def)
    with assms(1) have l: "(case lstat fs q of None \<Rightarrow> None | Some n \<Rightarrow> lstat n r) = Some (Dir es)"
      by (simp add: lstat_append)
    from assms(2) show False
    proof
      assume "lstat fs q = None" with l show False by simp
    next
      assume "\<exists>y. lstat fs q = Some y \<and> (\<forall>sub. y \<noteq> Dir sub)"
      then obtain y where y: "lstat fs q = Some y" "\<forall>sub. y \<noteq> Dir sub" by blast
      with l have "lstat y r = Some (Dir es)" by simp
      with y(2) show False by (cases y; cases r) auto
    qed
  qed
  show ?thesis
  proof (cases "prefix q d")
    case True with np show ?thesis by simp
  next
    case False
    show ?thesis
    proof (cases "prefix d q")
      case True
      then have "drop (length d) q \<noteq> []"
        using np by (auto simp: prefix_def)
      then show ?thesis
        using lstat_put_other [OF np, of x fs] True assms(1)
          put_Dir_is_Dir [of "drop (length d) q" x es] by auto
    next
      case False
      then show ?thesis using lstat_put_other [OF np, of x fs] assms(1) by simp
    qed
  qed
qed

lemma stat_not_Link:
  assumes "stat fs p = Some y" and "\<forall>a t. fs \<noteq> Link a t"
  shows "\<forall>a t. y \<noteq> Link a t"
proof -
  have w: "walk k fs cur cs = Some q \<Longrightarrow> (\<forall>a t. lstat fs cur \<noteq> Some (Link a t)) \<Longrightarrow>
          (\<forall>a t. lstat fs q \<noteq> Some (Link a t))" for k cur cs q
  proof (induction k fs cur cs rule: walk.induct)
    case (1 k fs cur)
    then show ?case by simp
  next
    case (2 k fs cur rest)
    from "2.prems"(1) obtain es where es: "lstat fs cur = Some (Dir es)"
      by (auto split: option.splits node.splits)
    have "\<forall>a t. lstat fs (butlast cur) \<noteq> Some (Link a t)"
    proof (cases "cur = []")
      case True with "2.prems"(2) show ?thesis by simp
    next
      case False
      then have "cur = butlast cur @ [last cur]" by simp
      with es have "(case lstat fs (butlast cur) of None \<Rightarrow> None | Some n \<Rightarrow> lstat n [last cur]) = Some (Dir es)"
        using lstat_append [of fs "butlast cur" "[last cur]"] by simp
      then show ?thesis by (auto split: option.splits)
    qed
    with 2 es show ?case by simp
  next
    case (3 k fs cur c rest)
    show ?case
    proof (cases "lstat fs (cur @ [c])")
      case None
      with "3.prems" show ?thesis by simp
    next
      case (Some y)
      show ?thesis
      proof (cases y)
        case (File b m)
        with Some 3 show ?thesis by simp
      next
        case (Dir es)
        with Some 3 show ?thesis by simp
      next
        case (Link a t)
        with Some "3.prems"(1) obtain k' where k: "k = Suc k'"
          and w: "walk k' fs (if a then [] else cur) (t @ rest) = Some q"
          by (auto split: nat.splits)
        have "\<forall>a' t'. lstat fs (if a then [] else cur) \<noteq> Some (Link a' t')"
          using "3.prems"(2) Some Link lstat_append [of fs cur "[c]"]
          by (cases fs) (auto simp: lstat_leaf split: option.splits if_splits)
        with "3.IH"(3) [OF Some Link k w] show ?thesis by simp
      qed
    qed
  qed
  from assms(1) obtain q where q: "realpath fs p = Some q" "lstat fs q = Some y"
    by (auto simp: stat_def split: option.splits)
  from w [of MAXSYMLINKS "[]" "map Name p" q] q(1) assms(2) have "\<forall>a t. lstat fs q \<noteq> Some (Link a t)"
    by (simp add: realpath_def)
  with q(2) show ?thesis by simp
qed

lemma writeFile_keeps_Dir:
  assumes "writeFile fs p b m = Inr fs'" and "lstat fs d = Some (Dir es)"
  shows "\<exists>es'. lstat fs' d = Some (Dir es')"
proof -
  have root: "\<forall>a t. fs \<noteq> Link a t"
    using assms(2) by (cases fs; cases d) auto
  show ?thesis
  proof (cases "stat fs p")
    case None
    with assms(1) obtain q where q: "lresolve fs p = Some q" "lstat fs q = None"
      "fs' = put q (File b m) fs"
      by (auto simp: writeFile_def split: option.splits)
    then show ?thesis using put_keeps_Dir [OF assms(2), of q] by simp
  next
    case (Some y)
    with assms(1) obtain q where q: "realpath fs p = Some q" "fs' = put q (File b m) fs"
      and y: "\<forall>sub. y \<noteq> Dir sub"
      by (auto simp: writeFile_def split: option.splits node.splits)
    from Some q(1) have "lstat fs q = Some y" by (simp add: stat_def)
    with y q(2) show ?thesis using put_keeps_Dir [OF assms(2), of q] by auto
  qed
qed

lemma npmPack_keeps_Dir:
  assumes "lstat (disk s) d = Some (Dir es)"
  shows "\<exists>es'. lstat (disk (snd (npmPack env pkg v cwd s))) d = Some (Dir es')"
  using assms writeFile_keeps_Dir [of "disk s" _ _ 420 _ d es]
  by (auto simp: npmPack_def Let_def split: option.splits sum.splits prod.splits)

lemma npmPack_error: "fst (npmPack env pkg v cwd s) = Inl e \<Longrightarrow> e = TransportFailure"
  by (auto simp: npmPack_def Let_def split: option.splits sum.splits prod.splits)

lemma readTarball_outcome:
  assumes "lstat (disk s) d = Some (Dir es)"
  shows "(readTarball env d s = (Inr a, s') \<longrightarrow>
           (\<exists>name tgz. isTarball name \<and> readFileSync (disk s) (d @ [name]) = Inr tgz \<and>
              gunzipSync env tgz = Some a \<and> lstat (disk s') (d @ [name]) = None \<and>
              \<not> existsSync (disk s') (d @ [name]))) \<and>
         (readTarball env d s = (Inl CorruptArchive, s') \<longrightarrow>
           (\<exists>name tgz. isTarball name \<and> readFileSync (disk s') (d @ [name]) = Inr tgz \<and>
              gunzipSync env tgz = None))"
proof (cases "find isTarball (map fst (listing es))")
  case None
  then show ?thesis
    using assms by (simp add: readTarball_def readdirSync_physical)
next
  case (Some name)
  then have t: "isTarball name" by (auto dest: find_Some_mem)
  show ?thesis
  proof (cases "readFileSync (disk s) (d @ [name])")
    case (Inl e)
    with Some show ?thesis
      using assms by (simp add: readTarball_def readdirSync_physical)
  next
    case (Inr tgz)
    show ?thesis
    proof (cases "gunzipSync env tgz")
      case None
      with Some Inr t show ?thesis
        using assms by (auto simp: readTarball_def readdirSync_physical)
    next
      case (Some a')
      have rm: "rmSync (disk s) (d @ [name]) = Inr fs' \<Longrightarrow>
                lstat fs' (d @ [name]) = None \<and> \<not> existsSync fs' (d @ [name])" for fs'
      proof -
        assume "rmSync (disk s) (d @ [name]) = Inr fs'"
        then have f: "fs' = remove (d @ [name]) (disk s)"
          using unlinkSync_physical [OF assms, of name]
          by (auto simp: rmSync_def split: option.splits node.splits)
        have "lstat fs' d = Some (Dir (AList.delete name es))"
          using f assms by (simp add: lstat_remove_parent)
        then have "stat fs' (d @ [name]) = None"
          by (rule stat_missing) (simp add: delete_conv')
        then show ?thesis
          using f by (simp add: existsSync_def lstat_remove_same)
      qed
      show ?thesis
        using Some Inr t \<open>find isTarball (map fst (listing es)) = Some name\<close> assms rm
        by (auto simp: readTarball_def readdirSync_physical split: sum.splits)
    qed
  qed
qed

lemma lstat_prefix_Dir:
  "lstat fs (p @ r) = Some x \<Longrightarrow> r \<noteq> [] \<Longrightarrow> \<exists>es. lstat fs p = Some (Dir es)"
  by (cases "lstat fs p"; cases r)
     (auto simp: lstat_append lstat_leaf split: option.splits node.splits if_splits
           elim!: lstat.elims)

lemma lstat_parent:
  "lstat fs (d @ [c]) = Some x \<Longrightarrow> \<exists>es. lstat fs d = Some (Dir es) \<and> map_of es c = Some x"
proof -
  assume a: "lstat fs (d @ [c]) = Some x"
  then obtain es where es: "lstat fs d = Some (Dir es)"
    using lstat_prefix_Dir [of fs d "[c]" x] by auto
  with a show ?thesis by (auto simp: lstat_child)
qed

lemma only_under_outside:
  "only_under d fs fs' \<Longrightarrow> \<not> prefix d p \<Longrightarrow> \<not> prefix p d \<Longrightarrow> lstat fs' p = lstat fs p"
  by (auto simp: only_under_def)


lemma put_File_shape:
  assumes "lstat fs q = Some (File b m0)"
  shows "shape_eq fs (put q (File b m) fs)"
proof -
  have "map_option kind (lstat (put q (File b m) fs) p) = map_option kind (lstat fs p)" for p
  proof (cases "prefix q p")
    case True
    then obtain r where r: "p = q @ r" by (auto simp: prefix_def)
    show ?thesis
    proof (cases "q = []")
      case True
      with assms have "fs = File b m0" by simp
      with True r show ?thesis by (simp add: lstat_leaf)
    next
      case False
      then obtain d c where dc: "q = d @ [c]" by (metis rev_exhaust)
      with assms obtain es where es: "lstat fs d = Some (Dir es)"
        using lstat_parent by blast
      have "lstat (put q (File b m) fs) p = lstat (File b m) r"
        using lstat_put_below [OF es, of c "File b m" r] dc r by simp
      moreover have "lstat fs p = lstat (File b m0) r"
        using assms r by (simp add: lstat_append)
      ultimately show ?thesis by (simp add: lstat_leaf)
    qed
  next
    case np: False
    show ?thesis
    proof (cases "prefix p q")
      case False
      then show ?thesis using lstat_put_other [OF np, of "File b m" fs] by simp
    next
      case True
      then obtain r where r: "q = p @ r" by (auto simp: prefix_def)
      with np have rne: "r \<noteq> []" by auto
      then obtain es where es: "lstat fs p = Some (Dir es)"
        using assms r lstat_prefix_Dir [of fs p r] by auto
      obtain es' where "put r (File b m) (Dir es) = Dir es'"
        using put_Dir_is_Dir [OF rne] by blast
      then show ?thesis
        using lstat_put_other [OF np, of "File b m" fs] True es r by simp
    qed
  qed
  then show ?thesis by (simp add: shape_eq_def)
qed

lemma chmodSync_cases:
  assumes "chmodSync env fs p m = Inr fs'"
  shows "fs' = fs \<or> (\<exists>q b m0. lstat fs q = Some (File b m0) \<and> fs' = put q (File b m) fs)"
  using assms
  by (auto simp: chmodSync_def chmodFile_def split: if_splits option.splits node.splits)

lemma chmodSync_shape: "chmodSync env fs p m = Inr fs' \<Longrightarrow> shape_eq fs fs'"
  using chmodSync_cases [of env fs p m fs'] put_File_shape shape_eq_refl by blast

lemma fixEntries_preserves:
  assumes step: "\<And>fs p fs'. P fs \<Longrightarrow> chmodSync env fs p 493 = Inr fs' \<Longrightarrow> P fs'"
    and rec: "\<And>d fs r fs'. fixPermissions_fuel n env d fs = Some (r, fs') \<Longrightarrow> P fs \<Longrightarrow> P fs'"
  shows "fixEntries n env dir ents fs = Some (r, fs') \<Longrightarrow> P fs \<Longrightarrow> P fs'"
proof (induction ents arbitrary: fs)
  case Nil
  then show ?case by simp
next
  case (Cons e es)
  obtain name x where e: "e = (name, x)" by (cases e)
  show ?case
  proof (cases x)
    case (File b m)
    let ?fs1 = "case chmodSync env fs (dir @ [name]) 493 of Inl e \<Rightarrow> fs | Inr fs1 \<Rightarrow> fs1"
    have "P ?fs1" using Cons.prems(2) step by (auto split: sum.splits)
    moreover have "fixEntries n env dir es ?fs1 = Some (r, fs')"
      using Cons.prems(1) File e by simp
    ultimately show ?thesis using Cons.IH by blast
  next
    case (Dir sub)
    with Cons.prems(1) e obtain r1 fs1
      where r1: "fixPermissions_fuel n env (dir @ [name]) fs = Some (r1, fs1)"
      by (auto split: option.splits)
    then have p1: "P fs1" using rec Cons.prems(2) by blast
    show ?thesis
    proof (cases r1)
      case (Inl err)
      with r1 Dir e Cons.prems(1) p1 show ?thesis by auto
    next
      case (Inr u)
      with r1 Dir e Cons.prems(1) have "fixEntries n env dir es fs1 = Some (r, fs')" by simp
      then show ?thesis using Cons.IH p1 by blast
    qed
  next
    case (Link a t)
    with Cons.prems e Cons.IH show ?thesis by auto
  qed
qed

lemma fixPermissions_fuel_preserves:
  assumes step: "\<And>fs p fs'. P fs \<Longrightarrow> chmodSync env fs p 493 = Inr fs' \<Longrightarrow> P fs'"
  shows "fixPermissions_fuel n env dir fs = Some (r, fs') \<Longrightarrow> P fs \<Longrightarrow> P fs'"
proof (induction n arbitrary: dir fs r fs')
  case 0
  then show ?case by simp
next
  case (Suc n)
  show ?case
  proof (cases "existsSync fs dir")
    case False
    with Suc.prems show ?thesis by simp
  next
    case True
    show ?thesis
    proof (cases "readdirSync fs dir")
      case (Inl e)
      with True Suc.prems show ?thesis by simp
    next
      case (Inr ents)
      with True Suc.prems have fe: "fixEntries n env dir ents fs = Some (r, fs')" by simp
      show ?thesis
      proof (rule fixEntries_preserves [where P = P and n = n and env = env])
        show "\<And>fs p fs'. P fs \<Longrightarrow> chmodSync env fs p 493 = Inr fs' \<Longrightarrow> P fs'"
          by (rule step)
        show "\<And>d fs r fs'. fixPermissions_fuel n env d fs = Some (r, fs') \<Longrightarrow> P fs \<Longrightarrow> P fs'"
          by (rule Suc.IH)
        show "fixEntries n env dir ents fs = Some (r, fs')" by (rule fe)
        show "P fs" by (rule Suc.prems(2))
      qed
    qed
  qed
qed

lemma fixPermissions_fuel_shape:
  "fixPermissions_fuel n env dir fs = Some (r, fs') \<Longrightarrow> shape_eq fs fs'"
proof -
  assume a: "fixPermissions_fuel n env dir fs = Some (r, fs')"
  show ?thesis
  proof (rule fixPermissions_fuel_preserves [where P = "shape_eq fs" and env = env, OF _ a])
    show "\<And>fs1 p fs2. shape_eq fs fs1 \<Longrightarrow> chmodSync env fs1 p 493 = Inr fs2 \<Longrightarrow> shape_eq fs fs2"
      using chmodSync_shape shape_eq_trans by blast
    show "shape_eq fs fs" by (rule shape_eq_refl)
  qed
qed


lemma lstat_below_leaf:
  assumes "lstat fs q = Some x" and "\<forall>es. x \<noteq> Dir es" and "lstat fs (q @ rel) = Some y"
  shows "rel = [] \<and> y = x"
  using assms by (cases x; cases rel) (auto simp: lstat_append)

lemma prefix_sibling: "a \<noteq> b \<Longrightarrow> \<not> prefix (rp @ [a]) (rp @ b # rel)"
  by (simp add: prefix_def)

lemma chmodSync_entry:
  assumes "realpath fs dir = Some rp" and "lstat fs (rp @ [name]) = Some (File b m)"
  shows "chmodSync env fs (dir @ [name]) m' =
     (if chmod_denied env (dir @ [name]) then Inl EPERM
      else Inr (put (rp @ [name]) (File b m') fs))"
  using assms realpath_child [OF assms(1,2)]
  by (simp add: chmodSync_def chmodFile_def)

lemma fixEntries_spec:
  assumes rec: "\<And>name fs1 r1 fs2 sub.
      fixPermissions_fuel n env (dir @ [name]) fs1 = Some (r1, fs2) \<Longrightarrow>
      realpath fs1 (dir @ [name]) = Some (rp @ [name]) \<Longrightarrow>
      lstat fs1 (rp @ [name]) = Some (Dir sub) \<Longrightarrow>
      r1 = Inr () \<and> only_under (rp @ [name]) fs1 fs2 \<and>
      fixed env (dir @ [name]) (rp @ [name]) fs1 fs2"
  shows "fixEntries n env dir ents fs = Some (r, fs') \<Longrightarrow> realpath fs dir = Some rp \<Longrightarrow>
     distinct (map fst ents) \<Longrightarrow> (\<forall>(name, x) \<in> set ents. lstat fs (rp @ [name]) = Some x) \<Longrightarrow>
     r = Inr () \<and> only_under rp fs fs' \<and>
     (\<forall>(name, x) \<in> set ents. fixed env (dir @ [name]) (rp @ [name]) fs fs') \<and>
     (\<forall>p. (\<forall>name \<in> fst ` set ents. \<not> prefix (rp @ [name]) p) \<longrightarrow> \<not> prefix p rp \<longrightarrow>
          lstat fs' p = lstat fs p)"
proof (induction ents arbitrary: fs)
  case Nil
  then show ?case by (simp add: only_under_refl)
next
  case (Cons e es)
  obtain name x where e: "e = (name, x)" by (cases e)
  let ?q = "rp @ [name]"
  have lx: "lstat fs ?q = Some x" using Cons.prems(4) e by simp
  have "\<exists>fsj. fixEntries n env dir es fsj = Some (r, fs') \<and> shape_eq fs fsj \<and>
          only_under ?q fs fsj \<and> fixed env (dir @ [name]) ?q fs fsj"
  proof (cases x)
    case (File b m)
    have leaf: "\<And>rel y. lstat fs (?q @ rel) = Some y \<Longrightarrow> rel = [] \<and> y = File b m"
      using lstat_below_leaf [of fs ?q "File b m"] lx File by blast
    show ?thesis
    proof (cases "chmod_denied env (dir @ [name])")
      case True
      then have "fixEntries n env dir es fs = Some (r, fs')"
        using Cons.prems(1) e File by (simp add: chmodSync_def)
      moreover have "fixed env (dir @ [name]) ?q fs fs"
        unfolding fixed_def using leaf True by fastforce
      ultimately show ?thesis using shape_eq_refl only_under_refl by blast
    next
      case False
      let ?fsj = "put ?q (File b 493) fs"
      have c: "chmodSync env fs (dir @ [name]) 493 = Inr ?fsj"
        using chmodSync_entry [OF Cons.prems(2), of name b m env 493] lx File False by simp
      then have "fixEntries n env dir es ?fsj = Some (r, fs')"
        using Cons.prems(1) e File by simp
      moreover have "shape_eq fs ?fsj"
        using lx File by (intro put_File_shape) auto
      moreover have "only_under ?q fs ?fsj" by (rule only_under_put)
      moreover have "fixed env (dir @ [name]) ?q fs ?fsj"
      proof -
        obtain es0 where "lstat fs rp = Some (Dir es0)"
          using lx lstat_parent by blast
        then have "lstat ?fsj ?q = Some (File b 493)" by (rule lstat_put_same)
        then show ?thesis
          unfolding fixed_def using leaf False by fastforce
      qed
      ultimately show ?thesis by blast
    qed
  next
    case (Dir sub)
    with Cons.prems(1) e obtain r1 fsj
      where r1: "fixPermissions_fuel n env (dir @ [name]) fs = Some (r1, fsj)"
      by (auto split: option.splits)
    have rpq: "realpath fs (dir @ [name]) = Some ?q"
      using realpath_child [OF Cons.prems(2), of name x] lx Dir by simp
    from rec [OF r1 rpq] lx Dir
    have f: "r1 = Inr ()" "only_under ?q fs fsj" "fixed env (dir @ [name]) ?q fs fsj"
      by auto
    have "fixEntries n env dir es fsj = Some (r, fs')"
      using Cons.prems(1) e Dir r1 f(1) by simp
    then show ?thesis
      using f fixPermissions_fuel_shape [OF r1] by blast
  next
    case (Link a t)
    have "\<And>rel y. lstat fs (?q @ rel) = Some y \<Longrightarrow> rel = [] \<and> y = Link a t"
      using lstat_below_leaf [of fs ?q "Link a t"] lx Link by blast
    then have "fixed env (dir @ [name]) ?q fs fs"
      unfolding fixed_def by fastforce
    moreover have "fixEntries n env dir es fs = Some (r, fs')"
      using Cons.prems(1) e Link by simp
    ultimately show ?thesis using shape_eq_refl only_under_refl by blast
  qed
  then obtain fsj where rest: "fixEntries n env dir es fsj = Some (r, fs')"
    and sh: "shape_eq fs fsj" and ou: "only_under ?q fs fsj"
    and fx: "fixed env (dir @ [name]) ?q fs fsj"
    by blast
  have dist: "distinct (map fst es)" and fresh: "name \<notin> fst ` set es"
    using Cons.prems(3) e by auto
  have sib: "lstat fsj (rp @ c # rel) = lstat fs (rp @ c # rel)" if "c \<noteq> name" for c rel
  proof -
    have "\<not> prefix ?q (rp @ c # rel)" using that by (simp add: prefix_def)
    moreover have "\<not> prefix (rp @ c # rel) ?q" using that by (auto simp: prefix_def)
    ultimately show ?thesis using ou by (rule only_under_outside [rotated])
  qed
  have acc: "\<forall>(c, y) \<in> set es. lstat fsj (rp @ [c]) = Some y"
  proof clarify
    fix c y assume cy: "(c, y) \<in> set es"
    then have "c \<noteq> name" using fresh by force
    then have "lstat fsj (rp @ [c]) = lstat fs (rp @ [c])" using sib [of c "[]"] by simp
    then show "lstat fsj (rp @ [c]) = Some y" using Cons.prems(4) cy by auto
  qed
  have rpj: "realpath fsj dir = Some rp"
    using Cons.prems(2) realpath_shape [OF sh] by simp
  from Cons.IH [OF rest rpj dist acc]
  have ih: "r = Inr ()" "only_under rp fsj fs'"
    "\<forall>(c, y) \<in> set es. fixed env (dir @ [c]) (rp @ [c]) fsj fs'"
    "\<forall>p. (\<forall>c \<in> fst ` set es. \<not> prefix (rp @ [c]) p) \<longrightarrow> \<not> prefix p rp \<longrightarrow>
         lstat fs' p = lstat fsj p"
    by auto
  have ou_all: "only_under rp fs fs'"
    using only_under_trans [OF only_under_mono [OF _ ou] ih(2)] by simp
  have fx_here: "fixed env (dir @ [name]) ?q fs fs'"
    unfolding fixed_def
  proof (intro allI impI)
    fix rel b m assume a: "lstat fs (?q @ rel) = Some (File b m)"
    have "\<forall>c \<in> fst ` set es. \<not> prefix (rp @ [c]) (?q @ rel)"
      using fresh by (auto simp: prefix_def)
    moreover have "\<not> prefix (?q @ rel) rp" by (auto simp: prefix_def)
    ultimately have "lstat fs' (?q @ rel) = lstat fsj (?q @ rel)" using ih(4) by blast
    then show "lstat fs' (?q @ rel) =
        Some (File b (if chmod_denied env ((dir @ [name]) @ rel) then m else 493))"
      using fx a unfolding fixed_def by simp
  qed
  have fx_rest: "\<forall>(c, y) \<in> set es. fixed env (dir @ [c]) (rp @ [c]) fs fs'"
  proof clarify
    fix c y assume cy: "(c, y) \<in> set es"
    then have ne: "c \<noteq> name" using fresh by force
    have "fixed env (dir @ [c]) (rp @ [c]) fsj fs'" using ih(3) cy by auto
    then show "fixed env (dir @ [c]) (rp @ [c]) fs fs'"
      unfolding fixed_def using sib [OF ne] by simp
  qed
  have frame: "\<forall>p. (\<forall>c \<in> fst ` set (e # es). \<not> prefix (rp @ [c]) p) \<longrightarrow> \<not> prefix p rp \<longrightarrow>
         lstat fs' p = lstat fs p"
  proof (intro allI impI)
    fix p assume np: "\<forall>c \<in> fst ` set (e # es). \<not> prefix (rp @ [c]) p" and npr: "\<not> prefix p rp"
    have 1: "\<not> prefix ?q p" using np e by simp
    have 2: "\<not> prefix p ?q" using 1 npr by (auto simp: prefix_snoc)
    have "lstat fsj p = lstat fs p" using only_under_outside [OF ou 1 2] .
    moreover have "lstat fs' p = lstat fsj p" using ih(4) np npr by simp
    ultimately show "lstat fs' p = lstat fs p" by simp
  qed
  show ?case
    using ih(1) ou_all fx_here fx_rest frame e by simp
qed

lemma fixPermissions_fuel_spec:
  "fixPermissions_fuel n env dir fs = Some (r, fs') \<Longrightarrow> realpath fs dir = Some rp \<Longrightarrow>
   lstat fs rp = Some (Dir es) \<Longrightarrow>
   r = Inr () \<and> only_under rp fs fs' \<and> fixed env dir rp fs fs'"
proof (induction n arbitrary: dir fs r fs' rp es)
  case 0
  then show ?case by simp
next
  case (Suc n)
  have st: "stat fs dir = Some (Dir es)"
    using Suc.prems(2,3) by (simp add: stat_def)
  then have fe: "fixEntries n env dir (listing es) fs = Some (r, fs')"
    using Suc.prems(1) by (simp add: existsSync_def readdirSync_def)
  have acc: "\<forall>(name, x) \<in> set (listing es). lstat fs (rp @ [name]) = Some x"
  proof clarify
    fix name x assume "(name, x) \<in> set (listing es)"
    then have "map_of (listing es) name = Some x"
      using distinct_listing [of es] by simp
    then show "lstat fs (rp @ [name]) = Some x"
      using Suc.prems(3) by (simp add: lstat_child map_of_listing)
  qed
  have spec: "r = Inr () \<and> only_under rp fs fs' \<and>
     (\<forall>(name, x) \<in> set (listing es). fixed env (dir @ [name]) (rp @ [name]) fs fs') \<and>
     (\<forall>p. (\<forall>name \<in> fst ` set (listing es). \<not> prefix (rp @ [name]) p) \<longrightarrow>
          \<not> prefix p rp \<longrightarrow> lstat fs' p = lstat fs p)"
  proof (rule fixEntries_spec [where n = n and env = env and dir = dir and rp = rp])
    show "\<And>name fs1 r1 fs2 sub.
      fixPermissions_fuel n env (dir @ [name]) fs1 = Some (r1, fs2) \<Longrightarrow>
      realpath fs1 (dir @ [name]) = Some (rp @ [name]) \<Longrightarrow>
      lstat fs1 (rp @ [name]) = Some (Dir sub) \<Longrightarrow>
      r1 = Inr () \<and> only_under (rp @ [name]) fs1 fs2 \<and>
      fixed env (dir @ [name]) (rp @ [name]) fs1 fs2"
      by (rule Suc.IH)
    show "fixEntries n env dir (listing es) fs = Some (r, fs')" by (rule fe)
    show "realpath fs dir = Some rp" by (rule Suc.prems(2))
    show "distinct (map fst (listing es))" by (rule distinct_listing)
    show "\<forall>(name, x) \<in> set (listing es). lstat fs (rp @ [name]) = Some x" by (rule acc)
  qed
  have "fixed env dir rp fs fs'"
    unfolding fixed_def
  proof (intro allI impI)
    fix rel b m assume a: "lstat fs (rp @ rel) = Some (File b m)"
    show "lstat fs' (rp @ rel) = Some (File b (if chmod_denied env (dir @ rel) then m else 493))"
    proof (cases rel)
      case Nil
      with a Suc.prems(3) show ?thesis by simp
    next
      case (Cons c rel')
      with a obtain x where x: "lstat fs (rp @ [c]) = Some x"
        using lstat_append [of fs "rp @ [c]" rel'] by (auto split: option.splits)
      then have "map_of (listing es) c = Some x"
        using Suc.prems(3) by (simp add: lstat_child map_of_listing)
      then have "(c, x) \<in> set (listing es)" by (rule map_of_SomeD)
      with spec have "fixed env (dir @ [c]) (rp @ [c]) fs fs'" by auto
      then show ?thesis using a Cons unfolding fixed_def by (metis append.assoc append_Cons append_Nil)
    qed
  qed
  with spec show ?case by simp
qed

lemma fold_max_ge_init: "(a::nat) \<le> fold max xs a"
  by (induction xs arbitrary: a) (auto intro: order_trans [OF max.cobounded2])

lemma fold_max_ge: "x \<in> set xs \<Longrightarrow> (x::nat) \<le> fold max xs a"
proof (induction xs arbitrary: a)
  case Nil
  then show ?case by simp
next
  case (Cons y ys)
  then show ?case
    using fold_max_ge_init [of "max y a" ys] by auto
qed

lemma height_child: "map_of es c = Some n \<Longrightarrow> height n < height (Dir es)"
proof -
  assume "map_of es c = Some n"
  then have "(c, n) \<in> set es" by (rule map_of_SomeD)
  then have "height n \<in> set (map (\<lambda>(c, n). height n) es)" by force
  then have "height n \<le> fold max (map (\<lambda>(c, n). height n) es) 0" by (rule fold_max_ge)
  then show ?thesis by simp
qed

lemma lstat_height: "lstat fs q = Some x \<Longrightarrow> length q + height x \<le> height fs"
proof (induction q arbitrary: fs)
  case Nil
  then show ?case by simp
next
  case (Cons c q)
  then obtain es n where fs: "fs = Dir es" and n: "map_of es c = Some n" and l: "lstat n q = Some x"
    by (cases fs) (auto split: option.splits)
  from Cons.IH [OF l] height_child [OF n] fs show ?case by simp
qed

lemma fixEntries_total:
  assumes rec: "\<And>name fs1 sub. (name, Dir sub) \<in> set ents \<Longrightarrow>
      realpath fs1 (dir @ [name]) = Some (rp @ [name]) \<Longrightarrow>
      lstat fs1 (rp @ [name]) = Some (Dir sub) \<Longrightarrow>
      fixPermissions_fuel n env (dir @ [name]) fs1 \<noteq> None"
  shows "realpath fs dir = Some rp \<Longrightarrow> distinct (map fst ents) \<Longrightarrow>
     (\<forall>(name, x) \<in> set ents. lstat fs (rp @ [name]) = Some x) \<Longrightarrow>
     fixEntries n env dir ents fs \<noteq> None"
  using rec
proof (induction ents arbitrary: fs)
  case Nil
  then show ?case by simp
next
  case (Cons e es)
  obtain name x where e: "e = (name, x)" by (cases e)
  let ?q = "rp @ [name]"
  have lx: "lstat fs ?q = Some x" using Cons.prems(3) e by simp
  have fresh: "name \<notin> fst ` set es" and dist: "distinct (map fst es)"
    using Cons.prems(2) e by auto
  have next_ok: "fixEntries n env dir es fsj \<noteq> None"
    if sh: "shape_eq fs fsj" and ou: "only_under ?q fs fsj" for fsj
  proof (rule Cons.IH)
    show "realpath fsj dir = Some rp"
      using Cons.prems(1) realpath_shape [OF sh] by simp
    show "distinct (map fst es)" by (rule dist)
    show "\<forall>(c, y) \<in> set es. lstat fsj (rp @ [c]) = Some y"
    proof clarify
      fix c y assume cy: "(c, y) \<in> set es"
      then have ne: "c \<noteq> name" using fresh by force
      have "\<not> prefix ?q (rp @ [c])" "\<not> prefix (rp @ [c]) ?q"
        using ne by (auto simp: prefix_def)
      then have "lstat fsj (rp @ [c]) = lstat fs (rp @ [c])"
        using only_under_outside [OF ou] by blast
      then show "lstat fsj (rp @ [c]) = Some y" using Cons.prems(3) cy by auto
    qed
    show "fixPermissions_fuel n env (dir @ [c]) fs1 \<noteq> None"
      if "(c, Dir sub) \<in> set es" and "realpath fs1 (dir @ [c]) = Some (rp @ [c])"
        and "lstat fs1 (rp @ [c]) = Some (Dir sub)" for c fs1 sub
      using Cons.prems(4) [of c sub fs1] that by simp
  qed
  show ?case
  proof (cases x)
    case (File b m)
    show ?thesis
    proof (cases "chmod_denied env (dir @ [name])")
      case True
      then show ?thesis
        using e File next_ok [OF shape_eq_refl only_under_refl] by (simp add: chmodSync_def)
    next
      case False
      let ?fsj = "put ?q (File b 493) fs"
      have c: "chmodSync env fs (dir @ [name]) 493 = Inr ?fsj"
        using chmodSync_entry [OF Cons.prems(1), of name b m env 493] lx File False by simp
      have "shape_eq fs ?fsj" using lx File by (intro put_File_shape) auto
      then show ?thesis
        using e File c next_ok [OF _ only_under_put] by simp
    qed
  next
    case (Dir sub)
    have rpq: "realpath fs (dir @ [name]) = Some ?q"
      using realpath_child [OF Cons.prems(1), of name x] lx Dir by simp
    have "fixPermissions_fuel n env (dir @ [name]) fs \<noteq> None"
      using Cons.prems(4) [of name sub fs] e Dir rpq lx by simp
    then obtain r1 fsj where r1: "fixPermissions_fuel n env (dir @ [name]) fs = Some (r1, fsj)"
      by auto
    from fixPermissions_fuel_spec [OF r1 rpq] lx Dir
    have f: "r1 = Inr ()" "only_under ?q fs fsj" by auto
    show ?thesis
      using e Dir r1 f(1) next_ok [OF fixPermissions_fuel_shape [OF r1] f(2)] by simp
  next
    case (Link a t)
    then show ?thesis
      using e next_ok [OF shape_eq_refl only_under_refl] by simp
  qed
qed

lemma stat_realpath:
  "stat fs p = Some x \<Longrightarrow> \<exists>rp. realpath fs p = Some rp \<and> lstat fs rp = Some x"
  by (auto simp: stat_def split: option.splits)

lemma fixPermissions_fuel_total:
  "(\<forall>x r. stat fs dir = Some x \<longrightarrow> lstat x r \<noteq> None \<longrightarrow> length r \<le> n) \<Longrightarrow>
   fixPermissions_fuel (Suc n) env dir fs \<noteq> None"
proof (induction n arbitrary: dir fs)
  case 0
  show ?case
  proof (cases "stat fs dir")
    case None
    then show ?thesis by (simp add: existsSync_def)
  next
    case (Some x)
    show ?thesis
    proof (cases x)
      case (Dir es)
      have "listing es = []"
      proof (cases "listing es")
        case Nil then show ?thesis .
      next
        case (Cons e es')
        obtain c y where "e = (c, y)" by (cases e)
        with Cons have "map_of (listing es) c = Some y" by simp
        then have "lstat (Dir es) [c] \<noteq> None" by (simp add: map_of_listing)
        with "0.prems" Some Dir have "length [c] \<le> 0" by blast
        then show ?thesis by simp
      qed
      then show ?thesis using Some Dir by (simp add: existsSync_def readdirSync_def)
    qed (use Some in \<open>simp_all add: existsSync_def readdirSync_def\<close>)
  qed
next
  case (Suc n)
  show ?case
  proof (cases "stat fs dir")
    case None
    then show ?thesis by (simp add: existsSync_def)
  next
    case (Some x)
    show ?thesis
    proof (cases x)
      case (Dir es)
      from Some Dir obtain rp where rp: "realpath fs dir = Some rp" "lstat fs rp = Some (Dir es)"
        using stat_realpath by blast
      have "fixEntries (Suc n) env dir (listing es) fs \<noteq> None"
      proof (rule fixEntries_total [where rp = rp])
        show "realpath fs dir = Some rp" by (rule rp(1))
        show "distinct (map fst (listing es))" by (rule distinct_listing)
        show "\<forall>(name, x) \<in> set (listing es). lstat fs (rp @ [name]) = Some x"
        proof clarify
          fix name y assume "(name, y) \<in> set (listing es)"
          then have "map_of (listing es) name = Some y"
            using distinct_listing [of es] by simp
          then show "lstat fs (rp @ [name]) = Some y"
            using rp(2) by (simp add: lstat_child map_of_listing)
        qed
        show "fixPermissions_fuel (Suc n) env (dir @ [name]) fs1 \<noteq> None"
          if mem: "(name, Dir sub) \<in> set (listing es)"
            and r1: "realpath fs1 (dir @ [name]) = Some (rp @ [name])"
            and l1: "lstat fs1 (rp @ [name]) = Some (Dir sub)" for name fs1 sub
        proof (rule Suc.IH, intro allI impI)
          fix y r assume s1: "stat fs1 (dir @ [name]) = Some y" and nz: "lstat y r \<noteq> None"
          from s1 r1 l1 have y: "y = Dir sub" by (simp add: stat_def)
          from mem have "map_of (listing es) name = Some (Dir sub)"
            using distinct_listing [of es] by simp
          then have "map_of es name = Some (Dir sub)"
            by (simp add: map_of_listing)
          then have "lstat (Dir es) (name # r) = lstat (Dir sub) r" by simp
          with nz y have "lstat (Dir es) (name # r) \<noteq> None" by simp
          with Suc.prems Some Dir have "length (name # r) \<le> Suc n" by blast
          then show "length r \<le> n" by simp
        qed
      qed
      then show ?thesis using Some Dir by (simp add: existsSync_def readdirSync_def)
    qed (use Some in \<open>simp_all add: existsSync_def readdirSync_def\<close>)
  qed
qed

lemma fixPermissions_never_out_of_fuel:
  "fixPermissions_fuel (Suc (height fs)) env dir fs \<noteq> None"
proof (rule fixPermissions_fuel_total, intro allI impI)
  fix x r assume s: "stat fs dir = Some x" and nz: "lstat x r \<noteq> None"
  from s obtain rp where rp: "lstat fs rp = Some x" using stat_realpath by blast
  from nz obtain y where "lstat x r = Some y" by auto
  with rp have "lstat fs (rp @ r) = Some y" by (simp add: lstat_append)
  from lstat_height [OF this] show "length r \<le> height fs" by simp
qed

lemma fixPermissions_eq:
  "fixPermissions env dir fs = (r, fs') \<longleftrightarrow>
   fixPermissions_fuel (Suc (height fs)) env dir fs = Some (r, fs')"
  using fixPermissions_never_out_of_fuel [of fs env dir]
  by (auto simp: fixPermissions_def)

lemma fixPermissions_result:
  "fst (fixPermissions env dir fs) =
     (case stat fs dir of
        None \<Rightarrow> Inr ()
      | Some (Dir es) \<Rightarrow> Inr ()
      | Some _ \<Rightarrow> Inl (IOFailure ENOTDIR))"
proof (cases "stat fs dir")
  case None
  then show ?thesis by (simp add: fixPermissions_def existsSync_def)
next
  case (Some x)
  show ?thesis
  proof (cases x)
    case (Dir es)
    obtain r fs' where r: "fixPermissions env dir fs = (r, fs')"
      by (cases "fixPermissions env dir fs")
    then have f: "fixPermissions_fuel (Suc (height fs)) env dir fs = Some (r, fs')"
      by (simp add: fixPermissions_eq)
    from Some Dir obtain rp where "realpath fs dir = Some rp" "lstat fs rp = Some (Dir es)"
      using stat_realpath by blast
    from fixPermissions_fuel_spec [OF f this] have "r = Inr ()" by simp
    with r Some Dir show ?thesis by simp
  qed (use Some in \<open>simp_all add: fixPermissions_def existsSync_def readdirSync_def\<close>)
qed

lemma fixPermissions_fixed:
  assumes "fixPermissions env dir fs = (Inr u, fs')"
    and "realpath fs' dir = Some rp" and "lstat fs' (rp @ rel) = Some (File b m)"
  shows "m = 493 \<or> chmod_denied env (dir @ rel)"
proof -
  have f: "fixPermissions_fuel (Suc (height fs)) env dir fs = Some (Inr u, fs')"
    using assms(1) by (simp add: fixPermissions_eq)
  have sh: "shape_eq fs fs'" using f by (rule fixPermissions_fuel_shape)
  have rp: "realpath fs dir = Some rp"
    using assms(2) realpath_shape [OF sh] by simp
  obtain m0 where m0: "lstat fs (rp @ rel) = Some (File b m0)"
    using shape_eq_lstat(3) [OF sh, where b = b and p = "rp @ rel"] assms(3) by blast
  have "\<exists>es. lstat fs rp = Some (Dir es)"
  proof (cases "rel = []")
    case False
    then show ?thesis using m0 lstat_prefix_Dir by blast
  next
    case True
    then have "stat fs dir = Some (File b m0)"
      using rp m0 by (simp add: stat_def)
    then have "fst (fixPermissions env dir fs) = Inl (IOFailure ENOTDIR)"
      by (simp add: fixPermissions_result)
    with assms(1) show ?thesis by simp
  qed
  then obtain es where es: "lstat fs rp = Some (Dir es)" by blast
  from fixPermissions_fuel_spec [OF f rp es] have "fixed env dir rp fs fs'" by simp
  then have "lstat fs' (rp @ rel) = Some (File b (if chmod_denied env (dir @ rel) then m0 else 493))"
    using m0 by (simp add: fixed_def)
  with assms(3) show ?thesis by (auto split: if_splits)
qed

lemma npmPack_chmod_irrelevant [simp]:
  "npmPack (env\<lparr>chmod_denied := d\<rparr>) pkg v cwd s = npmPack env pkg v cwd s"
  by (simp add: npmPack_def)

lemma readTarball_chmod_irrelevant [simp]:
  "readTarball (env\<lparr>chmod_denied := d\<rparr>) cwd s = readTarball env cwd s"
  by (simp add: readTarball_def Let_def cong: sum.case_cong option.case_cong)

lemma download_chmod_irrelevant [simp]:
  "download (env\<lparr>chmod_denied := d\<rparr>) v s = download env v s"
  by (simp add: download_def getPlatformPackageName_def Let_def
      cong: sum.case_cong option.case_cong prod.case_cong)

lemma paths_chmod_irrelevant [simp]:
  "destPath (env\<lparr>chmod_denied := d\<rparr>) dest v = destPath env dest v"
  "pythonDir (env\<lparr>chmod_denied := d\<rparr>) dest v = pythonDir env dest v"
  "markerFile (env\<lparr>chmod_denied := d\<rparr>) dest v = markerFile env dest v"
  by (simp_all add: destPath_def pythonDir_def markerFile_def CACHE_DIR_def
      cong: option.case_cong)

lemma extract_py_chmod_irrelevant:
  "fst (extract_py (env\<lparr>chmod_denied := d\<rparr>) dest v s) = fst (extract_py env dest v s)"
proof (cases "v = [] \<or> existsSync (disk s) (markerFile env dest v)")
  case True
  then show ?thesis by (auto simp: extract_py_def)
next
  case False
  let ?env' = "env\<lparr>chmod_denied := d\<rparr>"
  let ?bin = "path_join (pythonDir env dest v) [''bin'']"
  obtain r1 s1 where dl: "download env v s = (r1, s1)" by (cases "download env v s")
  show ?thesis
  proof (cases r1)
    case (Inl e)
    with dl False show ?thesis by (simp add: extract_py_def)
  next
    case r1: (Inr archive)
    obtain r2 fs2 where mk: "mkdirSync (disk s1) (destPath env dest v) = (r2, fs2)"
      by (cases "mkdirSync (disk s1) (destPath env dest v)")
    show ?thesis
    proof (cases r2)
      case (Inl e)
      with dl r1 mk False show ?thesis by (simp add: extract_py_def)
    next
      case r2: (Inr u2)
      obtain r3 fs3 where un: "unpack (tar_entries env archive) (destPath env dest v) fs2 = (r3, fs3)"
        by (cases "unpack (tar_entries env archive) (destPath env dest v) fs2")
      show ?thesis
      proof (cases r3)
        case (Inl e)
        with dl r1 mk r2 un False show ?thesis by (simp add: extract_py_def)
      next
        case r3: (Inr u3)
        obtain ra fa where fa: "fixPermissions ?env' ?bin fs3 = (ra, fa)"
          by (cases "fixPermissions ?env' ?bin fs3")
        obtain rb fb where fb: "fixPermissions env ?bin fs3 = (rb, fb)"
          by (cases "fixPermissions env ?bin fs3")
        have "fst (fixPermissions ?env' ?bin fs3) = fst (fixPermissions env ?bin fs3)"
          by (simp add: fixPermissions_result)
        with fa fb have eq: "ra = rb" by simp
        have l: "fst (extract_py ?env' dest v s) =
                 (case ra of Inl e \<Rightarrow> Inl e | Inr u \<Rightarrow> Inr (pythonDir env dest v))"
          using dl r1 mk r2 un r3 fa False by (simp add: extract_py_def split: sum.splits)
        have r: "fst (extract_py env dest v s) =
                 (case rb of Inl e \<Rightarrow> Inl e | Inr u \<Rightarrow> Inr (pythonDir env dest v))"
          using dl r1 mk r2 un r3 fb False by (simp add: extract_py_def split: sum.splits)
        show ?thesis using l r eq by simp
      qed
    qed
  qed
qed



lemma walk_linkfree:
  "(\<forall>q a t. prefix q (cur @ p) \<longrightarrow> lstat fs q \<noteq> Some (Link a t)) \<Longrightarrow> lstat fs cur \<noteq> None \<Longrightarrow>
   walk k fs cur (map Name p) = (if lstat fs (cur @ p) = None then None else Some (cur @ p))"
proof (induction p arbitrary: cur)
  case Nil
  then show ?case by simp
next
  case (Cons c p)
  show ?case
  proof (cases "lstat fs (cur @ [c])")
    case None
    then have "lstat fs (cur @ c # p) = None"
      using lstat_append [of fs "cur @ [c]" p] by simp
    with None show ?thesis by simp
  next
    case (Some y)
    have "prefix (cur @ [c]) (cur @ c # p)" by simp
    then have ny: "\<forall>a t. y \<noteq> Link a t"
      using Some Cons.prems(1) by blast
    have "walk k fs (cur @ [c]) (map Name p) =
          (if lstat fs ((cur @ [c]) @ p) = None then None else Some ((cur @ [c]) @ p))"
      using Cons.IH [of "cur @ [c]"] Cons.prems(1) Some by simp
    then show ?thesis using Some ny by (cases y) auto
  qed
qed

lemma closed_up_prefix: "closed_up Z \<Longrightarrow> Z p \<Longrightarrow> prefix q p \<Longrightarrow> Z q"
  by (auto simp: closed_up_def prefix_def)

lemma realpath_linkfree:
  assumes "closed_up Z" and "linkfree Z fs" and "Z p"
  shows "realpath fs p = (if lstat fs p = None then None else Some p)"
proof -
  have "\<forall>q a t. prefix q ([] @ p) \<longrightarrow> lstat fs q \<noteq> Some (Link a t)"
    using assms closed_up_prefix [OF assms(1,3)] by (auto simp: linkfree_def)
  from walk_linkfree [OF this, of MAXSYMLINKS] show ?thesis
    by (simp add: realpath_def)
qed

lemma stat_linkfree: "closed_up Z \<Longrightarrow> linkfree Z fs \<Longrightarrow> Z p \<Longrightarrow> stat fs p = lstat fs p"
  by (simp add: stat_def realpath_linkfree)

lemma existsSync_linkfree:
  "closed_up Z \<Longrightarrow> linkfree Z fs \<Longrightarrow> Z p \<Longrightarrow> existsSync fs p \<longleftrightarrow> lstat fs p \<noteq> None"
  by (simp add: existsSync_def stat_linkfree)

lemma lresolve_linkfree:
  assumes "closed_up Z" and "linkfree Z fs" and "Z p" and "lresolve fs p = Some q"
  shows "q = p"
proof (cases "p = []")
  case True
  with assms(4) show ?thesis by (simp add: lresolve_def)
next
  case False
  then have "Z (butlast p)"
    using closed_up_prefix [OF assms(1,3), of "butlast p"] by (simp add: prefixeq_butlast)
  from realpath_linkfree [OF assms(1,2) this] assms(4) False show ?thesis
    by (auto simp: lresolve_def split: if_splits option.splits node.splits)
qed

lemma lstat_put_at: "lstat (put q x fs) q = Some x \<or> lstat (put q x fs) q = lstat fs q"
proof (induction q arbitrary: fs)
  case Nil
  show ?case by simp
next
  case (Cons c q)
  show ?case
  proof (cases fs)
    case (Dir es)
    show ?thesis
    proof (cases "map_of es c")
      case None
      then show ?thesis using Dir by (auto simp: update_conv')
    next
      case (Some n)
      then show ?thesis using Dir Cons.IH [of n] by (auto simp: update_conv')
    qed
  qed simp_all
qed

lemma put_leaf_None:
  assumes "lstat fs m = None" and "q \<noteq> m" and "\<forall>r. r \<noteq> [] \<longrightarrow> lstat x r = None"
  shows "lstat (put q x fs) m = None"
proof (cases "prefix q m")
  case False
  then show ?thesis using lstat_put_other [OF False, of x fs] assms(1) by simp
next
  case True
  then obtain r where r: "m = q @ r" by (auto simp: prefix_def)
  with assms(2) have rne: "r \<noteq> []" by auto
  have "lstat (put q x fs) (q @ r) =
        (case lstat (put q x fs) q of None \<Rightarrow> None | Some n \<Rightarrow> lstat n r)"
    by (rule lstat_append)
  moreover have "(case lstat fs q of None \<Rightarrow> None | Some n \<Rightarrow> lstat n r) = None"
    using assms(1) r lstat_append [of fs q r] by simp
  ultimately show ?thesis
    using lstat_put_at [of q x fs] assms(3) rne r by (auto split: option.splits)
qed

lemma remove_None: "lstat fs m = None \<Longrightarrow> lstat (remove q fs) m = None"
proof (cases "prefix q m")
  case False
  assume "lstat fs m = None"
  then show ?thesis using lstat_remove_other [OF False, of fs] by simp
next
  case True
  assume a: "lstat fs m = None"
  show ?thesis
  proof (cases "q = []")
    case True
    with a show ?thesis by simp
  next
    case False
    then show ?thesis using True by (rule lstat_remove_same)
  qed
qed

text \<open>Writing a file or an empty directory, and removing an entry, make no new link.\<close>

lemma put_leaf_links:
  assumes "lstat (put q x fs) p = Some (Link a t)"
    and "\<forall>r. r \<noteq> [] \<longrightarrow> lstat x r = None" and "\<forall>a t. x \<noteq> Link a t"
  shows "lstat fs p = Some (Link a t)"
proof (cases "prefix q p")
  case False
  from only_under_put [of q fs x] False
  have "lstat (put q x fs) p = lstat fs p \<or>
        (prefix p q \<and> (\<exists>es es'. lstat fs p = Some (Dir es) \<and> lstat (put q x fs) p = Some (Dir es')))"
    by (simp add: only_under_def)
  with assms(1) show ?thesis by auto
next
  case True
  then obtain r where r: "p = q @ r" by (auto simp: prefix_def)
  have e: "lstat (put q x fs) (q @ r) =
        (case lstat (put q x fs) q of None \<Rightarrow> None | Some n \<Rightarrow> lstat n r)"
    by (rule lstat_append)
  from lstat_put_at [of q x fs] show ?thesis
  proof
    assume "lstat (put q x fs) q = Some x"
    with e assms r show ?thesis by (cases "r = []") auto
  next
    assume "lstat (put q x fs) q = lstat fs q"
    with e assms(1) r show ?thesis by (simp add: lstat_append)
  qed
qed

lemma remove_links:
  assumes "lstat (remove q fs) p = Some (Link a t)"
  shows "lstat fs p = Some (Link a t)"
proof (cases "prefix q p")
  case False
  from only_under_remove [of q fs] False
  have "lstat (remove q fs) p = lstat fs p \<or>
        (prefix p q \<and> (\<exists>es es'. lstat fs p = Some (Dir es) \<and> lstat (remove q fs) p = Some (Dir es')))"
    by (simp add: only_under_def)
  with assms show ?thesis by auto
next
  case True
  show ?thesis
  proof (cases "q = []")
    case True
    with assms show ?thesis by simp
  next
    case False
    with assms lstat_remove_same [OF False \<open>prefix q p\<close>, of fs] show ?thesis by simp
  qed
qed

lemma linkfree_put:
  "linkfree Z fs \<Longrightarrow> (\<forall>a t. x \<noteq> Link a t) \<Longrightarrow> (\<forall>r. r \<noteq> [] \<longrightarrow> lstat x r = None) \<Longrightarrow>
   linkfree Z (put q x fs)"
  unfolding linkfree_def using put_leaf_links [of q x fs] by blast

lemma linkfree_remove: "linkfree Z fs \<Longrightarrow> linkfree Z (remove q fs)"
  unfolding linkfree_def using remove_links [of q fs] by blast

lemma unmarked_put:
  "unmarked Z m fs \<Longrightarrow> q \<noteq> m \<Longrightarrow> (\<forall>a t. x \<noteq> Link a t) \<Longrightarrow> (\<forall>r. r \<noteq> [] \<longrightarrow> lstat x r = None) \<Longrightarrow>
   unmarked Z m (put q x fs)"
  by (simp add: unmarked_def linkfree_put put_leaf_None)

lemma unmarked_remove: "unmarked Z m fs \<Longrightarrow> unmarked Z m (remove q fs)"
  by (simp add: unmarked_def linkfree_remove remove_None)

lemma unmarked_writeFile:
  assumes "writeFile fs p b mode = Inr fs'" and "unmarked Z m fs" and "p \<noteq> m"
    and "closed_up Z" and "Z p"
  shows "unmarked Z m fs'"
proof -
  have nl: "linkfree Z fs" using assms(2) by (simp add: unmarked_def)
  from assms(1) have "fs' = put p (File b mode) fs"
    using lresolve_linkfree [OF assms(4) nl assms(5)]
    by (auto simp: writeFile_def stat_linkfree [OF assms(4) nl assms(5)]
          realpath_linkfree [OF assms(4) nl assms(5)]
        split: option.splits node.splits if_splits)
  then show ?thesis
    using assms(2,3) by (simp add: unmarked_put lstat_leaf)
qed

lemma unmarked_unlinkSync:
  "unlinkSync fs p = Inr fs' \<Longrightarrow> unmarked Z m fs \<Longrightarrow> unmarked Z m fs'"
  by (auto simp: unlinkSync_def unmarked_remove split: option.splits node.splits)

lemma unmarked_chmodSync:
  assumes "chmodSync env fs p mode = Inr fs'" and "unmarked Z m fs"
  shows "unmarked Z m fs'"
proof -
  from chmodSync_cases [OF assms(1)] show ?thesis
  proof
    assume "fs' = fs" with assms(2) show ?thesis by simp
  next
    assume "\<exists>q b m0. lstat fs q = Some (File b m0) \<and> fs' = put q (File b mode) fs"
    then obtain q b m0 where q: "lstat fs q = Some (File b m0)" "fs' = put q (File b mode) fs"
      by blast
    have "q \<noteq> m" using q(1) assms(2) by (auto simp: unmarked_def)
    then show ?thesis using q(2) assms(2) by (simp add: unmarked_put lstat_leaf)
  qed
qed

lemma unmarked_mkdirp:
  "mkdirp k fs cur (map Name p) = (r, fs') \<Longrightarrow> unmarked Z m fs \<Longrightarrow> \<not> prefix m (cur @ p) \<Longrightarrow>
   closed_up Z \<Longrightarrow> Z (cur @ p) \<Longrightarrow> unmarked Z m fs'"
proof (induction p arbitrary: cur fs)
  case Nil
  then show ?case by simp
next
  case (Cons c p)
  have nl: "linkfree Z fs" using Cons.prems(2) by (simp add: unmarked_def)
  have np: "\<not> prefix m ((cur @ [c]) @ p)" using Cons.prems(3) by simp
  have ne: "cur @ [c] \<noteq> m" using Cons.prems(3) by auto
  have z: "Z ((cur @ [c]) @ p)" using Cons.prems(5) by simp
  have zc: "Z (cur @ [c])"
    using closed_up_prefix [OF Cons.prems(4,5), of "cur @ [c]"] by simp
  show ?case
  proof (cases "lstat fs (cur @ [c])")
    case None
    show ?thesis
    proof (cases "\<exists>es. lstat fs cur = Some (Dir es)")
      case True
      then obtain es where es: "lstat fs cur = Some (Dir es)" by blast
      have u: "unmarked Z m (put (cur @ [c]) (Dir []) fs)"
        using Cons.prems(2) ne by (simp add: unmarked_put lstat_leaf)
      have "mkdirp k (put (cur @ [c]) (Dir []) fs) (cur @ [c]) (map Name p) = (r, fs')"
        using Cons.prems(1) None es by simp
      from Cons.IH [OF this u np Cons.prems(4) z] show ?thesis .
    next
      case False
      then have "mkdirp k fs cur (map Name (c # p)) = (Inl ENOTDIR, fs)"
        using None by (auto split: option.splits node.splits)
      with Cons.prems(1,2) show ?thesis by simp
    qed
  next
    case (Some y)
    show ?thesis
    proof (cases y)
      case (File b mode)
      with Some Cons.prems(1,2) show ?thesis by (auto split: if_splits)
    next
      case (Dir es)
      with Some Cons.prems(1) have "mkdirp k fs (cur @ [c]) (map Name p) = (r, fs')" by simp
      from Cons.IH [OF this Cons.prems(2) np Cons.prems(4) z] show ?thesis .
    next
      case (Link a t)
      with Some nl zc show ?thesis by (auto simp: linkfree_def)
    qed
  qed
qed

lemma unmarked_mkdirSync:
  "mkdirSync fs p = (r, fs') \<Longrightarrow> unmarked Z m fs \<Longrightarrow> \<not> prefix m p \<Longrightarrow> closed_up Z \<Longrightarrow> Z p \<Longrightarrow>
   unmarked Z m fs'"
  using unmarked_mkdirp [of MAXSYMLINKS fs "[]" p r fs' Z m] by (simp add: mkdirSync_def)

lemma under_package_not_marker:
  assumes "under_package p"
  shows "\<not> prefix (d @ [''package.json'']) (d @ butlast p)"
    and "\<not> prefix (d @ [''package.json'']) (d @ p)"
    and "d @ p \<noteq> d @ [''package.json'']"
proof -
  from assms obtain r where p: "p = ''package'' # r" by (cases p) auto
  show "\<not> prefix (d @ [''package.json'']) (d @ butlast p)"
    using p by (cases r) auto
  show "\<not> prefix (d @ [''package.json'']) (d @ p)"
    using p by auto
  show "d @ p \<noteq> d @ [''package.json'']"
    using p by auto
qed

lemma unmarked_unpackEntry:
  assumes "unpackEntry d e fs = (r, fs')" and "unmarked Z (d @ [''package.json'']) fs" and "npm_entry e"
    and "closed_up Z" and "\<forall>r. Z (d @ r)"
  shows "unmarked Z (d @ [''package.json'']) fs'"
proof (cases e)
  case (TarFile p b mode)
  with assms(3) have up: "under_package p" by simp
  then have pne: "p \<noteq> []" by auto
  obtain r1 fs1 where mk: "mkdirSync fs (d @ butlast p) = (r1, fs1)"
    by (cases "mkdirSync fs (d @ butlast p)")
  have u1: "unmarked Z (d @ [''package.json'']) fs1"
    using unmarked_mkdirSync [OF mk assms(2) _ assms(4)] under_package_not_marker(1) [OF up] assms(5)
    by blast
  show ?thesis
  proof (cases r1)
    case (Inl err)
    with assms(1) TarFile pne mk u1 show ?thesis by simp
  next
    case (Inr u)
    show ?thesis
    proof (cases "writeFile fs1 (d @ p) b mode")
      case (Inl err)
      with assms(1) TarFile pne mk Inr u1 show ?thesis by simp
    next
      case wr: (Inr fs2)
      then have "unmarked Z (d @ [''package.json'']) fs2"
        using unmarked_writeFile [OF wr u1 _ assms(4)] under_package_not_marker(3) [OF up] assms(5)
        by blast
      with assms(1) TarFile pne mk Inr wr show ?thesis by simp
    qed
  qed
next
  case (TarDir p)
  with assms(3) have up: "under_package p" by simp
  obtain r1 fs1 where mk: "mkdirSync fs (d @ p) = (r1, fs1)"
    by (cases "mkdirSync fs (d @ p)")
  have "unmarked Z (d @ [''package.json'']) fs1"
    using unmarked_mkdirSync [OF mk assms(2) _ assms(4)] under_package_not_marker(2) [OF up] assms(5)
    by blast
  with assms(1) TarDir mk show ?thesis by (cases r1) auto
next
  case (TarLink p a t)
  with assms(3) show ?thesis by simp
next
  case TarCorrupt
  with assms(1,2) show ?thesis by simp
qed

lemma unmarked_unpack:
  "unpack es d fs = (r, fs') \<Longrightarrow> unmarked Z (d @ [''package.json'']) fs \<Longrightarrow> list_all npm_entry es \<Longrightarrow>
   closed_up Z \<Longrightarrow> \<forall>r. Z (d @ r) \<Longrightarrow> unmarked Z (d @ [''package.json'']) fs'"
proof (induction es arbitrary: fs)
  case Nil
  then show ?case by simp
next
  case (Cons e es)
  obtain r1 fs1 where e: "unpackEntry d e fs = (r1, fs1)" by (cases "unpackEntry d e fs")
  have u1: "unmarked Z (d @ [''package.json'']) fs1"
    using unmarked_unpackEntry [OF e Cons.prems(2) _ Cons.prems(4,5)] Cons.prems(3) by simp
  show ?case
  proof (cases r1)
    case (Inl err)
    with Cons.prems(1) e u1 show ?thesis by simp
  next
    case (Inr u)
    with Cons.prems(1) e have "unpack es d fs1 = (r, fs')" by simp
    from Cons.IH [OF this u1 _ Cons.prems(4,5)] Cons.prems(3) show ?thesis by simp
  qed
qed

lemma unmarked_fixPermissions:
  assumes "fixPermissions env dir fs = (r, fs')" and "unmarked Z m fs"
  shows "unmarked Z m fs'"
proof -
  have f: "fixPermissions_fuel (Suc (height fs)) env dir fs = Some (r, fs')"
    using assms(1) by (simp add: fixPermissions_eq)
  show ?thesis
  proof (rule fixPermissions_fuel_preserves [where P = "unmarked Z m" and env = env, OF _ f])
    show "\<And>fs p fs'. unmarked Z m fs \<Longrightarrow> chmodSync env fs p 493 = Inr fs' \<Longrightarrow> unmarked Z m fs'"
      using unmarked_chmodSync by blast
    show "unmarked Z m fs" by (rule assms(2))
  qed
qed

lemma not_isTarball_package_json: "\<not> isTarball ''package.json''"
  by (simp add: isTarball_def)

lemma unmarked_npmPack:
  assumes "npmPack env pkg v cwd s = (r, s')" and "unmarked Z m (disk s)"
    and "\<forall>n b. npm_pack env pkg v = Some (n, b) \<longrightarrow> isTarball n"
    and "last m = ''package.json''"
    and "closed_up Z" and "\<forall>n. isTarball n \<longrightarrow> Z (cwd @ [n])"
  shows "unmarked Z m (disk s')"
proof (cases "npm_pack env pkg v")
  case None
  with assms(1,2) show ?thesis by (auto simp: npmPack_def)
next
  case (Some nb)
  obtain n b where nb: "nb = (n, b)" by (cases nb)
  with Some assms(3) have t: "isTarball n" by simp
  then have "n \<noteq> ''package.json''" using not_isTarball_package_json by auto
  then have ne: "cwd @ [n] \<noteq> m" using assms(4) by auto
  have z: "Z (cwd @ [n])" using t assms(6) by simp
  show ?thesis
  proof (cases "writeFile (disk s) (cwd @ [n]) b 420")
    case (Inl e)
    with assms(1,2) Some nb show ?thesis by (auto simp: npmPack_def)
  next
    case (Inr fs1)
    then have "unmarked Z m fs1"
      using unmarked_writeFile [OF _ _ ne assms(5) z] assms(2) by simp
    with assms(1) Some nb Inr show ?thesis by (auto simp: npmPack_def)
  qed
qed

lemma unmarked_readTarball:
  assumes "readTarball env cwd s = (r, s')" and "unmarked Z m (disk s)"
  shows "unmarked Z m (disk s')"
  using assms unmarked_unlinkSync [of "disk s" _ _ Z m]
  by (auto simp: readTarball_def rmSync_def Let_def split: sum.splits option.splits)

lemma unmarked_download:
  assumes "download env v s = (r, s')" and "unmarked Z m (disk s)"
    and "\<forall>pkg v n b. npm_pack env pkg v = Some (n, b) \<longrightarrow> isTarball n"
    and "last m = ''package.json''"
    and "closed_up Z" and "\<forall>n. isTarball n \<longrightarrow> Z (tmpdir env @ [n])"
  shows "unmarked Z m (disk s')"
proof (cases "v = [] \<or> getPlatformPackageName env = None")
  case True
  with assms(1,2) show ?thesis by (auto simp: download_def split: if_splits)
next
  case False
  then obtain pkg where pkg: "getPlatformPackageName env = Some pkg" and v: "v \<noteq> []" by auto
  obtain r1 s1 where p: "npmPack env pkg v (tmpdir env) s = (r1, s1)"
    by (cases "npmPack env pkg v (tmpdir env) s")
  have u1: "unmarked Z m (disk s1)"
    using unmarked_npmPack [OF p assms(2) _ assms(4,5,6)] assms(3) by blast
  show ?thesis
  proof (cases r1)
    case (Inl e)
    with assms(1) pkg v p u1 show ?thesis by (simp add: download_def Let_def)
  next
    case (Inr u)
    with assms(1) pkg v p have "readTarball env (tmpdir env) s1 = (r, s')"
      by (simp add: download_def Let_def)
    from unmarked_readTarball [OF this u1] show ?thesis .
  qed
qed

lemma comps_package_json: "comps ''package.json'' = [Name ''package.json'']"
  by code_simp

lemma markerFile_eq: "markerFile env dest v = destPath env dest v @ [''package.json'']"
  by (simp add: markerFile_def path_join_def comps_package_json)

lemma closed_up_zone: "closed_up (zone env dest v)"
  unfolding closed_up_def
proof (intro allI impI)
  fix q r assume z: "zone env dest v (q @ r)"
  let ?D = "destPath env dest v"
  let ?T = "tmpdir env"
  from z consider "prefix (q @ r) ?D" | "prefix ?D (q @ r)" | "prefix (q @ r) ?T"
    | "q @ r \<noteq> []" "butlast (q @ r) = ?T" "isTarball (last (q @ r))"
    by (auto simp: zone_def)
  then show "zone env dest v q"
  proof cases
    case 1
    then have "prefix q ?D" by (meson append_prefixD)
    then show ?thesis by (simp add: zone_def)
  next
    case 2
    have "prefix q (q @ r)" by simp
    from prefix_same_cases [OF this 2] show ?thesis by (auto simp: zone_def)
  next
    case 3
    then have "prefix q ?T" by (meson append_prefixD)
    then show ?thesis by (simp add: zone_def)
  next
    case 4
    show ?thesis
    proof (cases "r = []")
      case True
      with 4 show ?thesis by (simp add: zone_def)
    next
      case False
      then have "butlast (q @ r) = q @ butlast r" by (simp add: butlast_append)
      with 4(2) have "prefix q ?T" by (metis prefixI)
      then show ?thesis by (simp add: zone_def)
    qed
  qed
qed

lemma zone_dest: "zone env dest v (destPath env dest v @ r)"
  by (simp add: zone_def)

lemma zone_tarball: "isTarball n \<Longrightarrow> zone env dest v (tmpdir env @ [n])"
  by (simp add: zone_def)

lemma unmarked_extract_py:
  assumes "extract_py env dest v s = (r, s')"
    and "v \<noteq> []"
    and "\<not> existsSync (disk s) (markerFile env dest v)"
    and "linkfree (zone env dest v) (disk s)"
    and "\<forall>b. list_all npm_entry (tar_entries env b)"
    and "\<forall>pkg v n b. npm_pack env pkg v = Some (n, b) \<longrightarrow> isTarball n"
  shows "unmarked (zone env dest v) (markerFile env dest v) (disk s')"
proof -
  let ?Z = "zone env dest v"
  let ?d = "destPath env dest v"
  let ?m = "?d @ [''package.json'']"
  let ?bin = "path_join (pythonDir env dest v) [''bin'']"
  note cl = closed_up_zone [of env dest v]
  have zd: "\<forall>r. ?Z (?d @ r)" using zone_dest by blast
  have zt: "\<forall>n. isTarball n \<longrightarrow> ?Z (tmpdir env @ [n])" using zone_tarball by blast
  have m: "markerFile env dest v = ?m" by (rule markerFile_eq)
  have u0: "unmarked ?Z ?m (disk s)"
    using assms(3,4) existsSync_linkfree [OF cl assms(4), of ?m] zd
    by (simp add: unmarked_def m)
  obtain r1 s1 where dl: "download env v s = (r1, s1)" by (cases "download env v s")
  have u1: "unmarked ?Z ?m (disk s1)"
    using unmarked_download [OF dl u0 assms(6) _ cl zt] by simp
  show ?thesis
  proof (cases r1)
    case (Inl e)
    with dl assms(1,2,3) u1 show ?thesis by (auto simp: extract_py_def m)
  next
    case r1: (Inr archive)
    obtain r2 fs2 where mk: "mkdirSync (disk s1) ?d = (r2, fs2)"
      by (cases "mkdirSync (disk s1) ?d")
    have u2: "unmarked ?Z ?m fs2"
      using unmarked_mkdirSync [OF mk u1 _ cl] zd [rule_format, of "[]"] by simp
    show ?thesis
    proof (cases r2)
      case (Inl e)
      with dl r1 mk assms(1,2,3) u2 show ?thesis by (auto simp: extract_py_def m)
    next
      case r2: (Inr u2')
      obtain r3 fs3 where un: "unpack (tar_entries env archive) ?d fs2 = (r3, fs3)"
        by (cases "unpack (tar_entries env archive) ?d fs2")
      have u3: "unmarked ?Z ?m fs3"
        using unmarked_unpack [OF un u2 _ cl zd] assms(5) by simp
      show ?thesis
      proof (cases r3)
        case (Inl e)
        with dl r1 mk r2 un assms(1,2,3) u3 show ?thesis by (auto simp: extract_py_def m)
      next
        case r3: (Inr u3')
        obtain r4 fs4 where fx: "fixPermissions env ?bin fs3 = (r4, fs4)"
          by (cases "fixPermissions env ?bin fs3")
        have u4: "unmarked ?Z ?m fs4"
          using unmarked_fixPermissions [OF fx u3] .
        have "disk s' = fs4"
          using dl r1 mk r2 un r3 fx assms(1,2,3)
          by (cases r4) (auto simp: extract_py_def m)
        with u4 show ?thesis by (simp add: m)
      qed
    qed
  qed
qed

lemma unmarked_not_exists:
  assumes "unmarked (zone env dest v) (markerFile env dest v) fs"
  shows "\<not> existsSync fs (markerFile env dest v)"
proof -
  have "zone env dest v (markerFile env dest v)"
    using zone_dest [of env dest v "[''package.json'']"] by (simp add: markerFile_eq)
  from existsSync_linkfree [OF closed_up_zone _ this, of fs] assms show ?thesis
    by (simp add: unmarked_def)
qed

lemma npm_log_npmPack:
  "npm_log (snd (npmPack env pkg v cwd s)) = npm_log s @ [(pkg, v)]"
  by (auto simp: npmPack_def Let_def split: option.splits sum.splits prod.splits)

lemma npm_log_readTarball: "npm_log (snd (readTarball env cwd s)) = npm_log s"
  by (auto simp: readTarball_def Let_def split: option.splits sum.splits)

lemma npm_log_download:
  assumes "v \<noteq> []" and "getPlatformPackageName env = Some pkg"
  shows "npm_log (snd (download env v s)) = npm_log s @ [(pkg, v)]"
proof -
  obtain r1 s1 where p: "npmPack env pkg v (tmpdir env) s = (r1, s1)"
    by (cases "npmPack env pkg v (tmpdir env) s")
  then have l: "npm_log s1 = npm_log s @ [(pkg, v)]"
    using npm_log_npmPack [of env pkg v "tmpdir env" s] by simp
  show ?thesis
    using assms p l npm_log_readTarball [of env "tmpdir env" s1]
    by (cases r1) (simp_all add: download_def Let_def)
qed

lemma npm_log_extract_py:
  assumes "v \<noteq> []" and "\<not> existsSync (disk s) (markerFile env dest v)"
  shows "npm_log (snd (extract_py env dest v s)) = npm_log (snd (download env v s))"
  using assms
  by (auto simp: extract_py_def split: prod.splits sum.splits)

lemma host_tarball_names:
  "npm_pack host pkg v = Some (n, b) \<Longrightarrow> isTarball n"
proof -
  assume "npm_pack host pkg v = Some (n, b)"
  then have n: "n = ''xspect-build-python-linux-x64-'' @ v @ ''.tgz''"
    by (auto simp: host_def split: if_splits)
  have "suffix ''.tgz'' ((''xspect-build-python-linux-x64-'' @ v) @ ''.tgz'')"
    by (rule suffix_appendI) simp
  then show ?thesis using n by (simp add: isTarball_def)
qed


































lemma two_packs:
  assumes "lstat (disk s) d = Some (Dir es)"
    and "npm_pack env pkg va = Some (na, ba)"
    and "npm_pack env pkg vb = Some (nb, bb)"
    and "map_of es na = None" and "map_of es nb = None" and "na \<noteq> nb"
  shows "npmPack env pkg vb d (snd (npmPack env pkg va d s)) =
     (Inr (), s\<lparr>npm_log := npm_log s @ [(pkg, va), (pkg, vb)],
               disk := put (d @ [nb]) (File bb 420) (put (d @ [na]) (File ba 420) (disk s))\<rparr>)"
    and "fst (npmPack env pkg va d s) = Inr ()"
    and "lstat (put (d @ [nb]) (File bb 420) (put (d @ [na]) (File ba 420) (disk s))) d =
         Some (Dir (AList.update nb (File bb 420) (AList.update na (File ba 420) es)))"
proof -
  let ?sA = "s\<lparr>npm_log := npm_log s @ [(pkg, va)], disk := put (d @ [na]) (File ba 420) (disk s)\<rparr>"
  have pA: "npmPack env pkg va d s = (Inr (), ?sA)"
    using assms(1,2,4) by (intro npmPack_physical) auto
  have lA: "lstat (disk ?sA) d = Some (Dir (AList.update na (File ba 420) es))"
    using assms(1) by (simp add: lstat_put_parent)
  have "map_of (AList.update na (File ba 420) es) nb = None"
    using assms(5,6) by (simp add: update_conv')
  then have "npmPack env pkg vb d ?sA =
     (Inr (), ?sA\<lparr>npm_log := npm_log ?sA @ [(pkg, vb)],
                 disk := put (d @ [nb]) (File bb 420) (disk ?sA)\<rparr>)"
    using lA assms(3) by (intro npmPack_physical) auto
  then show "npmPack env pkg vb d (snd (npmPack env pkg va d s)) =
     (Inr (), s\<lparr>npm_log := npm_log s @ [(pkg, va), (pkg, vb)],
               disk := put (d @ [nb]) (File bb 420) (put (d @ [na]) (File ba 420) (disk s))\<rparr>)"
    using pA by simp
  show "fst (npmPack env pkg va d s) = Inr ()" using pA by simp
  show "lstat (put (d @ [nb]) (File bb 420) (put (d @ [na]) (File ba 420) (disk s))) d =
         Some (Dir (AList.update nb (File bb 420) (AList.update na (File ba 420) es)))"
    using lA by (simp add: lstat_put_parent)
qed

lemma scan_after_two_packs:
  assumes "lstat (disk s) d = Some (Dir es)"
    and "\<forall>c. map_of es c \<noteq> None \<longrightarrow> \<not> isTarball c"
    and "npm_pack env pkg va = Some (na, ba)"
    and "npm_pack env pkg vb = Some (nb, bb)"
    and "isTarball na" and "isTarball nb"
    and "n = na \<and> bn = ba \<and> k = nb \<and> bk = bb \<or> n = nb \<and> bn = bb \<and> k = na \<and> bk = ba"
    and "n < k"
    and "gunzipSync env bn = Some t"
  shows "fst (npmPack env pkg va d s) = Inr () \<and>
         fst (npmPack env pkg vb d (snd (npmPack env pkg va d s))) = Inr () \<and>
         fst (readTarball env d (snd (npmPack env pkg vb d (snd (npmPack env pkg va d s))))) = Inr t \<and>
         lstat (disk (snd (readTarball env d (snd (npmPack env pkg vb d (snd (npmPack env pkg va d s)))))))
           (d @ [n]) = None \<and>
         lstat (disk (snd (readTarball env d (snd (npmPack env pkg vb d (snd (npmPack env pkg va d s)))))))
           (d @ [k]) = Some (File bk 420)"
proof -
  let ?es = "AList.update nb (File bb 420) (AList.update na (File ba 420) es)"
  let ?fs = "put (d @ [nb]) (File bb 420) (put (d @ [na]) (File ba 420) (disk s))"
  let ?sB = "s\<lparr>npm_log := npm_log s @ [(pkg, va), (pkg, vb)], disk := ?fs\<rparr>"
  have ne: "na \<noteq> nb" using assms(7,8) by auto
  have fa: "map_of es na = None" and fb: "map_of es nb = None"
    using assms(2,5,6) by auto
  note tp = two_packs [OF assms(1,3,4) fa fb ne]
  have lB: "lstat (disk ?sB) d = Some (Dir ?es)" using tp(3) by simp
  have mn: "map_of ?es n = Some (File bn 420)" and mk: "map_of ?es k = Some (File bk 420)"
    using assms(7) ne by (auto simp: update_conv')
  have least: "\<forall>c. map_of ?es c \<noteq> None \<longrightarrow> isTarball c \<longrightarrow> n \<le> c"
    using assms(2,7,8) by (auto simp: update_conv')
  have tn: "isTarball n" using assms(5,6,7) by auto
  have f: "find isTarball (map fst (listing ?es)) = Some n"
    using mn tn least by (intro find_listing_least) auto
  have rB: "readTarball env d ?sB = (Inr t, ?sB\<lparr>disk := remove (d @ [n]) ?fs\<rparr>)"
    using readTarball_physical [OF lB f mn, of env] assms(9) by simp
  have gone: "lstat (remove (d @ [n]) ?fs) (d @ [n]) = None"
    by (simp add: lstat_remove_same)
  have "lstat (remove (d @ [n]) ?fs) d = Some (Dir (AList.delete n ?es))"
    using tp(3) by (rule lstat_remove_parent)
  then have kept: "lstat (remove (d @ [n]) ?fs) (d @ [k]) = Some (File bk 420)"
    using mk assms(8) by (simp add: lstat_child delete_conv')
  show ?thesis
    using tp(1,2) rB gone kept by simp
qed

lemma disk_usr_links:
  assumes "lstat disk_usr q = Some (Link a t)"
  shows "q = [''bin'']"
proof (cases q)
  case Nil
  with assms show ?thesis by (simp add: disk_usr_def)
next
  case (Cons c r)
  note q = Cons
  show ?thesis
  proof (cases r)
    case Nil
    with assms q show ?thesis by (simp add: disk_usr_def split: if_splits)
  next
    case (Cons c2 r2)
    with assms q show ?thesis
      by (cases r2) (simp_all add: disk_usr_def lstat_leaf split: if_splits)
  qed
qed

lemma linkfree_disk_usr: "linkfree (zone host_truncated (Some [''d'']) v) disk_usr"
  unfolding linkfree_def
proof (intro allI impI notI)
  fix q a t
  assume z: "zone host_truncated (Some [''d'']) v q" and l: "lstat disk_usr q = Some (Link a t)"
  from disk_usr_links [OF l] have "q = [''bin'']" .
  with z show False
    by (simp add: zone_def destPath_def host_truncated_def host_def)
qed

section \<open>The platform gate\<close>

lemma platformKey_supported_iff:
  "(platformKey os cpu \<in> fst ` set platformPackageMap) =
   (os = ''linux'' \<and> (cpu = ''arm64'' \<or> cpu = ''x64''))"
  by (auto simp: platformKey_def platformPackageMap_def append_eq_Cons_conv)

text \<open>
  Claim C3. When the key of the host's (os, cpu) pair is not in the platform table,
  \<open>getPlatformPackageName\<close> yields nothing, and \<open>download\<close> fails for every version and leaves
  the state as it was: no \<^verbatim>\<open>npm pack\<close> run is logged and the disk is untouched; for a version
  that is not empty the failure is \<open>UnsupportedPlatform\<close>. When the key is in the table the
  package name is the scope, \<^verbatim>\<open>/python-\<close> and the key. The keys of the table are exactly the
  pairs linux/arm64 and linux/x64.
\<close>

theorem platform_gate:
  "(platformKey (platform env) (arch env) \<notin> fst ` set platformPackageMap \<longrightarrow>
      getPlatformPackageName env = None \<and>
      (\<forall>v s. \<exists>e. download env v s = (Inl e, s)) \<and>
      (\<forall>v s. v \<noteq> [] \<longrightarrow>
         download env v s = (Inl (UnsupportedPlatform (platformKey (platform env) (arch env))), s))) \<and>
   (platformKey (platform env) (arch env) \<in> fst ` set platformPackageMap \<longrightarrow>
      getPlatformPackageName env =
        Some (SCOPE @ ''/python-'' @ platformKey (platform env) (arch env))) \<and>
   ((platformKey (platform env) (arch env) \<in> fst ` set platformPackageMap) =
      (platform env = ''linux'' \<and> (arch env = ''arm64'' \<or> arch env = ''x64'')))"
proof -
  let ?k = "platformKey (platform env) (arch env)"
  have none: "getPlatformPackageName env = None" if "?k \<notin> fst ` set platformPackageMap"
    using that by (simp add: getPlatformPackageName_def map_of_eq_None_iff)
  have some: "getPlatformPackageName env = Some (SCOPE @ ''/python-'' @ ?k)"
    if "?k \<in> fst ` set platformPackageMap"
    using that by (auto simp: getPlatformPackageName_def platformPackageMap_def)
  show ?thesis
    using none some platformKey_supported_iff [of "platform env" "arch env"]
    by (auto simp: download_def)
qed

theorem platform_gate_witness:
  "platformKey ''darwin'' ''x64'' \<notin> fst ` set platformPackageMap \<and>
   platformKey ''linux'' ''x64'' \<in> fst ` set platformPackageMap \<and>
   getPlatformPackageName (host\<lparr>platform := ''darwin''\<rparr>) = None \<and>
   download (host\<lparr>platform := ''darwin''\<rparr>) ''3.9.13'' s0 =
     (Inl (UnsupportedPlatform ''darwin-x64''), s0) \<and>
   getPlatformPackageName host = Some ''@xspect-build/python-linux-x64''"
  using platform_gate [of "host\<lparr>platform := ''darwin''\<rparr>"] platform_gate [of host]
  by (simp add: host_def platformKey_def SCOPE_def)

section \<open>Locating the patchelf binary\<close>

text \<open>
  Claim C7, as the code has it. \<open>getPatchelfPath\<close> looks the platform package up and returns
  the first of the install locations that exists, whatever kind of node it is; it fails with
  \<open>NotFound\<close> when the platform has no package or none of the locations exists, and it has no
  other outcome.
\<close>

theorem resolver_first_existing:
  "getPatchelfPath env fs =
     (case map_of platformPackageMap_patchelf (platformKey (platform env) (arch env)) of
        None \<Rightarrow> Inl (NotFound (platformKey (platform env) (arch env)))
      | Some packageName \<Rightarrow>
          (case find (existsSync fs) (candidatePaths env packageName) of
             None \<Rightarrow> Inl (NotFound (platformKey (platform env) (arch env)))
           | Some p \<Rightarrow> Inr p))"
  by (simp add: getPatchelfPath_def findBinaryPath_def candidatePaths_def find_append Let_def
      split: option.splits)

theorem resolver_first_existing_witness:
  "getPatchelfPath host disk_patchelf_plain =
     Inr [''app'', ''node_modules'', ''@xspect-build'', ''@xspect-build'',
          ''patchelf-linux-x64'', ''bin'', ''patchelf''] \<and>
   getPatchelfPath host disk0 = Inl (NotFound ''linux-x64'') \<and>
   getPatchelfPath (host\<lparr>platform := ''win32''\<rparr>) disk_patchelf = Inl (NotFound ''win32-x64'')"
proof -
  have "find (existsSync disk_patchelf_plain)
          (candidatePaths host ''@xspect-build/patchelf-linux-x64'') =
        Some [''app'', ''node_modules'', ''@xspect-build'', ''@xspect-build'',
              ''patchelf-linux-x64'', ''bin'', ''patchelf'']"
    by code_simp
  moreover have
    "find (existsSync disk0) (candidatePaths host ''@xspect-build/patchelf-linux-x64'') = None"
    by code_simp
  ultimately show ?thesis
    using resolver_first_existing [of host disk_patchelf_plain]
      resolver_first_existing [of host disk0]
      resolver_first_existing [of "host\<lparr>platform := ''win32''\<rparr>" disk_patchelf]
    by (simp add: host_def platformKey_def platformPackageMap_patchelf_def)
qed

text \<open>
  The claim as the specification words it fails: on \<open>disk_patchelf\<close> the first location is a
  directory and the second a regular file, and the directory is returned.
\<close>

theorem resolver_returns_directory:
  "getPatchelfPath host disk_patchelf =
     Inr [''app'', ''node_modules'', ''@xspect-build'', ''patchelf'', ''node_modules'',
          ''@xspect-build'', ''patchelf-linux-x64'', ''bin'', ''patchelf''] \<and>
   stat disk_patchelf
     [''app'', ''node_modules'', ''@xspect-build'', ''patchelf'', ''node_modules'',
      ''@xspect-build'', ''patchelf-linux-x64'', ''bin'', ''patchelf''] = Some (Dir []) \<and>
   stat disk_patchelf
     [''app'', ''node_modules'', ''@xspect-build'', ''@xspect-build'',
      ''patchelf-linux-x64'', ''bin'', ''patchelf''] = Some (File [127, 69, 76, 70] 493)"
  by code_simp

text \<open>
  Claim C10. \<open>isPatchelfAvailable\<close> is a total function into the booleans. It is true exactly
  when \<open>getPatchelfPath\<close> returns a path and the executability check passes for it; it is
  false when the platform has no package, when no binary is found, and when the check fails.
\<close>

theorem isPatchelfAvailable_iff:
  "isPatchelfAvailable env fs =
     (\<exists>p. getPatchelfPath env fs = Inr p \<and> accessSync_X env fs p = Inr ()) \<and>
   (map_of platformPackageMap_patchelf (platformKey (platform env) (arch env)) = None \<longrightarrow>
      \<not> isPatchelfAvailable env fs) \<and>
   (\<forall>e. getPatchelfPath env fs = Inl e \<longrightarrow> \<not> isPatchelfAvailable env fs) \<and>
   (\<forall>p e. getPatchelfPath env fs = Inr p \<longrightarrow> accessSync_X env fs p = Inl e \<longrightarrow>
      \<not> isPatchelfAvailable env fs)"
  by (auto simp: isPatchelfAvailable_def getPatchelfPath_def findBinaryPath_def
      split: sum.splits option.splits)

theorem isPatchelfAvailable_iff_witness:
  "map_of platformPackageMap_patchelf (platformKey ''win32'' ''x64'') = None \<and>
   \<not> isPatchelfAvailable (host\<lparr>platform := ''win32''\<rparr>) disk_patchelf \<and>
   getPatchelfPath host disk0 = Inl (NotFound ''linux-x64'') \<and>
   \<not> isPatchelfAvailable host disk0 \<and>
   accessSync_X host disk_patchelf_plain
     [''app'', ''node_modules'', ''@xspect-build'', ''@xspect-build'',
      ''patchelf-linux-x64'', ''bin'', ''patchelf''] = Inl EACCES \<and>
   \<not> isPatchelfAvailable host disk_patchelf_plain \<and>
   isPatchelfAvailable host
     (put [''app'', ''node_modules'', ''@xspect-build'', ''@xspect-build'',
           ''patchelf-linux-x64'', ''bin'', ''patchelf''] (File [127, 69, 76, 70] 493)
        disk_patchelf_plain)"
proof -
  let ?p = "[''app'', ''node_modules'', ''@xspect-build'', ''@xspect-build'',
             ''patchelf-linux-x64'', ''bin'', ''patchelf'']"
  let ?d = "put ?p (File [127, 69, 76, 70] 493) disk_patchelf_plain"
  have a: "map_of platformPackageMap_patchelf (platformKey ''win32'' ''x64'') = None"
    by code_simp
  have b: "getPatchelfPath host disk0 = Inl (NotFound ''linux-x64'')"
    by code_simp
  have c: "getPatchelfPath host disk_patchelf_plain = Inr ?p"
    by code_simp
  have d: "accessSync_X host disk_patchelf_plain ?p = Inl EACCES"
    by code_simp
  have e: "getPatchelfPath host ?d = Inr ?p"
    by code_simp
  have f: "accessSync_X host ?d ?p = Inr ()"
    by code_simp
  have g: "arch (host\<lparr>platform := ''win32''\<rparr>) = ''x64''"
    by (simp add: host_def)
  have h1: "\<not> isPatchelfAvailable (host\<lparr>platform := ''win32''\<rparr>) disk_patchelf"
  proof -
    let ?e = "host\<lparr>platform := ''win32''\<rparr>"
    have "map_of platformPackageMap_patchelf (platformKey (platform ?e) (arch ?e)) = None \<longrightarrow>
          \<not> isPatchelfAvailable ?e disk_patchelf"
      using isPatchelfAvailable_iff [of ?e disk_patchelf] by blast
    then show ?thesis using a g by simp
  qed
  have h2: "\<not> isPatchelfAvailable host disk0"
    using b isPatchelfAvailable_iff [of host disk0] by blast
  have h3: "\<not> isPatchelfAvailable host disk_patchelf_plain"
    using c d isPatchelfAvailable_iff [of host disk_patchelf_plain] by blast
  have h4: "isPatchelfAvailable host ?d"
    using e f isPatchelfAvailable_iff [of host ?d] by blast
  show ?thesis
    using a b d h1 h2 h3 h4 by simp
qed

section \<open>Transport: the temporary tarball\<close>

text \<open>
  Claim C9. \<open>download\<close> identifies the tarball by scanning the shared temporary directory:
  it reads the first name of the sorted listing (the least name in bytewise order) that
  both starts with \<^verbatim>\<open>xspect-build-python-\<close> and ends with \<^verbatim>\<open>.tgz\<close>; names that fail either test
  are passed over. Let \<open>n\<close> be that name once \<^verbatim>\<open>npm pack\<close> has written its tarball \<open>name\<close>, and
  let it be a regular file with bytes \<open>bn\<close>. Then \<open>download\<close> returns the decompression of \<open>bn\<close>
  and removes \<open>n\<close>, whether or not \<open>n\<close> is the tarball of the requested version: when a matching
  leftover sorts before \<open>name\<close>, the archive returned is the leftover's and the tarball of the
  requested version stays behind.
\<close>

theorem download_takes_first_match:
  assumes "lstat (disk s) (tmpdir env) = Some (Dir es)"
    and "v \<noteq> []"
    and "getPlatformPackageName env = Some pkg"
    and "npm_pack env pkg v = Some (name, b)"
    and "map_of es name = None \<or> (\<exists>b1 m1. map_of es name = Some (File b1 m1))"
    and "map_of (AList.update name (File b 420) es) n = Some (File bn mn)"
    and "prefix ''xspect-build-python-'' n" and "suffix ''.tgz'' n"
    and "\<forall>c. map_of (AList.update name (File b 420) es) c \<noteq> None \<longrightarrow>
             prefix ''xspect-build-python-'' c \<longrightarrow> suffix ''.tgz'' c \<longrightarrow> n \<le> c"
  shows "download env v s =
     (case gunzipSync env bn of
        None \<Rightarrow>
          (Inl CorruptArchive,
           s\<lparr>npm_log := npm_log s @ [(pkg, v)],
             disk := put (tmpdir env @ [name]) (File b 420) (disk s)\<rparr>)
      | Some t \<Rightarrow>
          (Inr t,
           s\<lparr>npm_log := npm_log s @ [(pkg, v)],
             disk := remove (tmpdir env @ [n])
                       (put (tmpdir env @ [name]) (File b 420) (disk s))\<rparr>))"
proof -
  let ?d = "tmpdir env"
  let ?s1 = "s\<lparr>npm_log := npm_log s @ [(pkg, v)], disk := put (?d @ [name]) (File b 420) (disk s)\<rparr>"
  let ?es1 = "AList.update name (File b 420) es"
  have p: "npmPack env pkg v ?d s = (Inr (), ?s1)"
    using assms(1,4,5) by (intro npmPack_physical) auto
  have l1: "lstat (disk ?s1) ?d = Some (Dir ?es1)"
    using assms(1) by (simp add: lstat_put_parent)
  have f1: "find isTarball (map fst (listing ?es1)) = Some n"
    using assms(6,7,8,9) by (intro find_listing_least) (auto simp: isTarball_def)
  have "readTarball env ?d ?s1 =
     (case gunzipSync env bn of
        None \<Rightarrow> (Inl CorruptArchive, ?s1)
      | Some t \<Rightarrow> (Inr t, ?s1\<lparr>disk := remove (?d @ [n]) (disk ?s1)\<rparr>))"
    using readTarball_physical [OF l1 f1 assms(6), of env] by simp
  then show ?thesis
    using p assms(2,3) by (simp add: download_def Let_def split: option.splits)
qed


text \<open>
  On the concrete host the temporary directory holds the tarball of 3.8.0 and two files that
  pass one name test only. The download of 3.9.13 returns the archive of 3.8.0, which sorts
  first, removes that file and leaves the tarball of 3.9.13 behind; the download of 3.7.0,
  whose tarball sorts before the leftover, returns the archive of 3.7.0.
\<close>

theorem download_takes_first_match_witness:
  "prefix ''xspect-build-python-'' ''xspect-build-python-linux-x64-3.8.0.tgz'' \<and>
   suffix ''.tgz'' ''xspect-build-python-linux-x64-3.8.0.tgz'' \<and>
   download host ''3.9.13'' \<lparr>disk = disk_leftover, npm_log = []\<rparr> =
     (Inr [7],
      \<lparr>disk = remove [''tmp'', ''xspect-build-python-linux-x64-3.8.0.tgz'']
                (put [''tmp'', ''xspect-build-python-linux-x64-3.9.13.tgz'']
                   (File (31 # 139 # map of_char ''3.9.13'') 420) disk_leftover),
       npm_log = [(''@xspect-build/python-linux-x64'', ''3.9.13'')]\<rparr>) \<and>
   gunzipSync host (31 # 139 # map of_char ''3.9.13'') = Some (map of_char ''3.9.13'') \<and>
   map of_char ''3.9.13'' \<noteq> [7::nat] \<and>
   download host ''3.7.0'' \<lparr>disk = disk_leftover, npm_log = []\<rparr> =
     (Inr (map of_char ''3.7.0''),
      \<lparr>disk = remove [''tmp'', ''xspect-build-python-linux-x64-3.7.0.tgz'']
                (put [''tmp'', ''xspect-build-python-linux-x64-3.7.0.tgz'']
                   (File (31 # 139 # map of_char ''3.7.0'') 420) disk_leftover),
       npm_log = [(''@xspect-build/python-linux-x64'', ''3.7.0'')]\<rparr>)"
proof -
  let ?s = "\<lparr>disk = disk_leftover, npm_log = []\<rparr>"
  let ?old = "''xspect-build-python-linux-x64-3.8.0.tgz''"
  let ?part = "''xspect-build-python-linux-x64-3.10.0.tgz.part''"
  let ?other = "''python-3.7.tgz''"
  let ?es = "[(?old, File [31, 139, 7] 420), (?part, File [31, 139, 8] 420),
              (?other, File [31, 139, 9] 420)]"
  let ?n9 = "''xspect-build-python-linux-x64-3.9.13.tgz''"
  let ?b9 = "31 # 139 # map of_char ''3.9.13''"
  let ?n7 = "''xspect-build-python-linux-x64-3.7.0.tgz''"
  let ?b7 = "31 # 139 # map of_char ''3.7.0''"
  have 1: "lstat (disk ?s) (tmpdir host) = Some (Dir ?es)"
    by (simp add: host_def disk_leftover_def)
  have 3: "getPlatformPackageName host = Some ''@xspect-build/python-linux-x64''"
    by code_simp
  have p9: "npm_pack host ''@xspect-build/python-linux-x64'' ''3.9.13'' = Some (?n9, ?b9)"
    by (simp add: host_def)
  have p7: "npm_pack host ''@xspect-build/python-linux-x64'' ''3.7.0'' = Some (?n7, ?b7)"
    by (simp add: host_def)
  have f9: "map_of ?es ?n9 = None" and f7: "map_of ?es ?n7 = None"
    by simp_all
  have m9: "map_of (AList.update ?n9 (File ?b9 420) ?es) ?old = Some (File [31, 139, 7] 420)"
    by (simp add: update_conv')
  have m7: "map_of (AList.update ?n7 (File ?b7 420) ?es) ?n7 = Some (File ?b7 420)"
    by (simp add: update_conv')
  have pre: "prefix ''xspect-build-python-'' ?old" "suffix ''.tgz'' ?old"
    "prefix ''xspect-build-python-'' ?n7" "suffix ''.tgz'' ?n7"
    by code_simp+
  have k9: "c \<in> set [?old, ?part, ?other, ?n9]"
    if "map_of (AList.update ?n9 (File ?b9 420) ?es) c \<noteq> None" for c
    using that by (simp add: update_conv' split: if_splits)
  have k7: "c \<in> set [?old, ?part, ?other, ?n7]"
    if "map_of (AList.update ?n7 (File ?b7 420) ?es) c \<noteq> None" for c
    using that by (simp add: update_conv' split: if_splits)
  have a9: "\<forall>c \<in> set [?old, ?part, ?other, ?n9].
      prefix ''xspect-build-python-'' c \<longrightarrow> suffix ''.tgz'' c \<longrightarrow> ?old \<le> c"
    by code_simp
  have a7: "\<forall>c \<in> set [?old, ?part, ?other, ?n7].
      prefix ''xspect-build-python-'' c \<longrightarrow> suffix ''.tgz'' c \<longrightarrow> ?n7 \<le> c"
    by code_simp
  have l9: "\<forall>c. map_of (AList.update ?n9 (File ?b9 420) ?es) c \<noteq> None \<longrightarrow>
      prefix ''xspect-build-python-'' c \<longrightarrow> suffix ''.tgz'' c \<longrightarrow> ?old \<le> c"
    using k9 a9 by blast
  have l7: "\<forall>c. map_of (AList.update ?n7 (File ?b7 420) ?es) c \<noteq> None \<longrightarrow>
      prefix ''xspect-build-python-'' c \<longrightarrow> suffix ''.tgz'' c \<longrightarrow> ?n7 \<le> c"
    using k7 a7 by blast
  have g0: "gunzipSync host [31, 139, 7] = Some [7]"
    and g9: "gunzipSync host ?b9 = Some (map of_char ''3.9.13'')"
    and g7: "gunzipSync host ?b7 = Some (map of_char ''3.7.0'')"
    by (simp_all add: host_def)
  have t: "tmpdir host = [''tmp'']" by (simp add: host_def)
  have d9: "download host ''3.9.13'' ?s =
     (Inr [7],
      \<lparr>disk = remove [''tmp'', ?old] (put [''tmp'', ?n9] (File ?b9 420) disk_leftover),
       npm_log = [(''@xspect-build/python-linux-x64'', ''3.9.13'')]\<rparr>)"
    using download_takes_first_match [OF 1 _ 3 p9 disjI1 [OF f9] m9 pre(1,2) l9] g0 t
    by simp
  have d7: "download host ''3.7.0'' ?s =
     (Inr (map of_char ''3.7.0''),
      \<lparr>disk = remove [''tmp'', ?n7] (put [''tmp'', ?n7] (File ?b7 420) disk_leftover),
       npm_log = [(''@xspect-build/python-linux-x64'', ''3.7.0'')]\<rparr>)"
    using download_takes_first_match [OF 1 _ 3 p7 disjI1 [OF f7] m7 pre(3,4) l7] g7 t
    by simp
  have ne: "map of_char ''3.9.13'' \<noteq> [7::nat]" by simp
  show ?thesis
    using pre(1,2) d9 g9 ne d7 by blast
qed

text \<open>
  Claim C5, as the code has it. With the temporary directory a real directory: when
  \<open>download\<close> succeeds, the tarball file it read (which held the bytes whose decompression
  it returns) no longer exists; when it fails with a corrupt archive, the tarball it read is
  still in the temporary directory, since the removal comes after the decompression and
  nothing catches the exception.
\<close>

theorem download_cleanup:
  assumes "lstat (disk s) (tmpdir env) = Some (Dir es)"
    and "getPlatformPackageName env = Some pkg"
  shows "(\<forall>a s'. download env v s = (Inr a, s') \<longrightarrow>
            (\<exists>name tgz. isTarball name \<and>
               readFileSync (disk (snd (npmPack env pkg v (tmpdir env) s))) (tmpdir env @ [name]) =
                 Inr tgz \<and>
               gunzipSync env tgz = Some a \<and>
               lstat (disk s') (tmpdir env @ [name]) = None \<and>
               \<not> existsSync (disk s') (tmpdir env @ [name]))) \<and>
         (\<forall>s'. download env v s = (Inl CorruptArchive, s') \<longrightarrow>
            (\<exists>name tgz. isTarball name \<and>
               readFileSync (disk s') (tmpdir env @ [name]) = Inr tgz \<and>
               gunzipSync env tgz = None))"
proof (cases "v = []")
  case True
  then show ?thesis by (simp add: download_def)
next
  case False
  let ?d = "tmpdir env"
  obtain r s1 where p: "npmPack env pkg v ?d s = (r, s1)" by (cases "npmPack env pkg v ?d s")
  obtain es1 where l1: "lstat (disk s1) ?d = Some (Dir es1)"
    using npmPack_keeps_Dir [OF assms(1), of env pkg v ?d] p by auto
  show ?thesis
  proof (cases r)
    case (Inl e)
    then have "download env v s = (Inl TransportFailure, s1)"
      using p False assms(2) npmPack_error [of env pkg v ?d s e]
      by (simp add: download_def Let_def)
    then show ?thesis by simp
  next
    case (Inr u)
    then have "download env v s = readTarball env ?d s1"
      using p False assms(2) by (simp add: download_def Let_def)
    then show ?thesis
      using readTarball_outcome [OF l1, of env] p by simp
  qed
qed

text \<open>
  The claim as the specification words it fails: when the registry serves a tarball that is
  not a gzip stream, \<open>download\<close> fails and the tarball file stays in the temporary directory.
\<close>

theorem download_leaves_corrupt_tarball:
  "fst (download host ''bad'' s0) = Inl CorruptArchive \<and>
   stat (disk (snd (download host ''bad'' s0))) [''tmp'', ''xspect-build-python-linux-x64-bad.tgz''] =
     Some (File [0] 420)"
  by code_simp

theorem download_cleanup_witness:
  "lstat (disk s0) (tmpdir host) = Some (Dir []) \<and>
   getPlatformPackageName host = Some ''@xspect-build/python-linux-x64'' \<and>
   fst (download host ''3.9.13'' s0) = Inr (map of_char ''3.9.13'') \<and>
   (\<exists>name. isTarball name \<and>
      \<not> existsSync (disk (snd (download host ''3.9.13'' s0))) (tmpdir host @ [name])) \<and>
   fst (download host ''bad'' s0) = Inl CorruptArchive \<and>
   (\<exists>name tgz. isTarball name \<and>
      readFileSync (disk (snd (download host ''bad'' s0))) (tmpdir host @ [name]) = Inr tgz \<and>
      gunzipSync host tgz = None)"
proof -
  have 1: "lstat (disk s0) (tmpdir host) = Some (Dir [])"
    by code_simp
  have 2: "getPlatformPackageName host = Some ''@xspect-build/python-linux-x64''"
    by code_simp
  have 3: "fst (download host ''3.9.13'' s0) = Inr (map of_char ''3.9.13'')"
    by code_simp
  have 4: "fst (download host ''bad'' s0) = Inl CorruptArchive"
    by code_simp
  have 5: "download host ''3.9.13'' s0 =
           (Inr (map of_char ''3.9.13''), snd (download host ''3.9.13'' s0))"
    using 3 by (metis prod.collapse)
  have 6: "download host ''bad'' s0 = (Inl CorruptArchive, snd (download host ''bad'' s0))"
    using 4 by (metis prod.collapse)
  from download_cleanup [OF 1 2, of "''3.9.13''"] 5
  have 7: "\<exists>name. isTarball name \<and>
      \<not> existsSync (disk (snd (download host ''3.9.13'' s0))) (tmpdir host @ [name])"
    by blast
  from download_cleanup [OF 1 2, of "''bad''"] 6
  have 8: "\<exists>name tgz. isTarball name \<and>
      readFileSync (disk (snd (download host ''bad'' s0))) (tmpdir host @ [name]) = Inr tgz \<and>
      gunzipSync host tgz = None"
    by blast
  show ?thesis using 1 2 3 4 7 8 by blast
qed

text \<open>
  Claim C8, as the code has it. Every invocation packs into the one directory
  \<^verbatim>\<open>os.tmpdir()\<close> and scans it by prefix and suffix. When the invocations for two versions
  have both run \<^verbatim>\<open>npm pack\<close> before either scans, both tarballs stand in that directory, and
  the scan that runs first (of either invocation) reads and removes the tarball whose name
  sorts first, in whichever order the two were written; the other tarball is left for the
  other invocation.
\<close>

theorem shared_tmpdir_collision:
  assumes "lstat (disk s) (tmpdir env) = Some (Dir es)"
    and "\<forall>c. map_of es c \<noteq> None \<longrightarrow> \<not> isTarball c"
    and "npm_pack env pkg v1 = Some (n1, b1)"
    and "npm_pack env pkg v2 = Some (n2, b2)"
    and "isTarball n1" and "isTarball n2" and "n1 < n2"
    and "gunzipSync env b1 = Some t1"
  shows "(fst (npmPack env pkg v1 (tmpdir env) s) = Inr () \<and>
          fst (npmPack env pkg v2 (tmpdir env) (snd (npmPack env pkg v1 (tmpdir env) s))) = Inr () \<and>
          fst (readTarball env (tmpdir env)
                 (snd (npmPack env pkg v2 (tmpdir env) (snd (npmPack env pkg v1 (tmpdir env) s))))) =
            Inr t1 \<and>
          lstat (disk (snd (readTarball env (tmpdir env)
                 (snd (npmPack env pkg v2 (tmpdir env) (snd (npmPack env pkg v1 (tmpdir env) s)))))))
            (tmpdir env @ [n1]) = None \<and>
          lstat (disk (snd (readTarball env (tmpdir env)
                 (snd (npmPack env pkg v2 (tmpdir env) (snd (npmPack env pkg v1 (tmpdir env) s)))))))
            (tmpdir env @ [n2]) = Some (File b2 420)) \<and>
         (fst (npmPack env pkg v2 (tmpdir env) s) = Inr () \<and>
          fst (npmPack env pkg v1 (tmpdir env) (snd (npmPack env pkg v2 (tmpdir env) s))) = Inr () \<and>
          fst (readTarball env (tmpdir env)
                 (snd (npmPack env pkg v1 (tmpdir env) (snd (npmPack env pkg v2 (tmpdir env) s))))) =
            Inr t1 \<and>
          lstat (disk (snd (readTarball env (tmpdir env)
                 (snd (npmPack env pkg v1 (tmpdir env) (snd (npmPack env pkg v2 (tmpdir env) s)))))))
            (tmpdir env @ [n1]) = None \<and>
          lstat (disk (snd (readTarball env (tmpdir env)
                 (snd (npmPack env pkg v1 (tmpdir env) (snd (npmPack env pkg v2 (tmpdir env) s)))))))
            (tmpdir env @ [n2]) = Some (File b2 420))"
proof (rule conjI)
  show "fst (npmPack env pkg v1 (tmpdir env) s) = Inr () \<and>
          fst (npmPack env pkg v2 (tmpdir env) (snd (npmPack env pkg v1 (tmpdir env) s))) = Inr () \<and>
          fst (readTarball env (tmpdir env)
                 (snd (npmPack env pkg v2 (tmpdir env) (snd (npmPack env pkg v1 (tmpdir env) s))))) =
            Inr t1 \<and>
          lstat (disk (snd (readTarball env (tmpdir env)
                 (snd (npmPack env pkg v2 (tmpdir env) (snd (npmPack env pkg v1 (tmpdir env) s)))))))
            (tmpdir env @ [n1]) = None \<and>
          lstat (disk (snd (readTarball env (tmpdir env)
                 (snd (npmPack env pkg v2 (tmpdir env) (snd (npmPack env pkg v1 (tmpdir env) s)))))))
            (tmpdir env @ [n2]) = Some (File b2 420)"
    by (rule scan_after_two_packs [OF assms(1,2,3,4,5,6) _ assms(7,8)]) simp
  show "fst (npmPack env pkg v2 (tmpdir env) s) = Inr () \<and>
          fst (npmPack env pkg v1 (tmpdir env) (snd (npmPack env pkg v2 (tmpdir env) s))) = Inr () \<and>
          fst (readTarball env (tmpdir env)
                 (snd (npmPack env pkg v1 (tmpdir env) (snd (npmPack env pkg v2 (tmpdir env) s))))) =
            Inr t1 \<and>
          lstat (disk (snd (readTarball env (tmpdir env)
                 (snd (npmPack env pkg v1 (tmpdir env) (snd (npmPack env pkg v2 (tmpdir env) s)))))))
            (tmpdir env @ [n1]) = None \<and>
          lstat (disk (snd (readTarball env (tmpdir env)
                 (snd (npmPack env pkg v1 (tmpdir env) (snd (npmPack env pkg v2 (tmpdir env) s)))))))
            (tmpdir env @ [n2]) = Some (File b2 420)"
    by (rule scan_after_two_packs [OF assms(1,2,4,3,6,5) _ assms(7,8)]) simp
qed

text \<open>
  The claim as the specification words it fails: on the concrete host the invocations for
  3.9.13 and 3.10.0 write into the same directory. When both have packed, the listing holds
  the tarball of 3.10.0 first, so the scan of the invocation for 3.9.13 returns the archive
  of 3.10.0, and the scan of the invocation for 3.10.0, made after it, the archive of 3.9.13.
\<close>

theorem two_versions_collide:
  "fst (npmPack host pkg_x64 ''3.9.13'' (tmpdir host) s0) = Inr () \<and>
   fst (npmPack host pkg_x64 ''3.10.0'' (tmpdir host)
          (snd (npmPack host pkg_x64 ''3.9.13'' (tmpdir host) s0))) = Inr () \<and>
   map fst (projr (readdirSync (disk (snd (npmPack host pkg_x64 ''3.10.0'' (tmpdir host)
          (snd (npmPack host pkg_x64 ''3.9.13'' (tmpdir host) s0))))) (tmpdir host))) =
     [''xspect-build-python-linux-x64-3.10.0.tgz'', ''xspect-build-python-linux-x64-3.9.13.tgz''] \<and>
   fst (readTarball host (tmpdir host)
          (snd (npmPack host pkg_x64 ''3.10.0'' (tmpdir host)
             (snd (npmPack host pkg_x64 ''3.9.13'' (tmpdir host) s0))))) =
     Inr (map of_char ''3.10.0'') \<and>
   fst (readTarball host (tmpdir host)
          (snd (readTarball host (tmpdir host)
             (snd (npmPack host pkg_x64 ''3.10.0'' (tmpdir host)
                (snd (npmPack host pkg_x64 ''3.9.13'' (tmpdir host) s0))))))) =
     Inr (map of_char ''3.9.13'') \<and>
   gunzipSync host (31 # 139 # map of_char ''3.9.13'') = Some (map of_char ''3.9.13'') \<and>
   map of_char ''3.9.13'' \<noteq> (map of_char ''3.10.0'' :: nat list)"
  by code_simp

theorem shared_tmpdir_collision_witness:
  "lstat (disk s0) (tmpdir host) = Some (Dir []) \<and>
   isTarball ''xspect-build-python-linux-x64-3.10.0.tgz'' \<and>
   isTarball ''xspect-build-python-linux-x64-3.9.13.tgz'' \<and>
   ''xspect-build-python-linux-x64-3.10.0.tgz'' < ''xspect-build-python-linux-x64-3.9.13.tgz'' \<and>
   fst (readTarball host (tmpdir host)
          (snd (npmPack host pkg_x64 ''3.10.0'' (tmpdir host)
             (snd (npmPack host pkg_x64 ''3.9.13'' (tmpdir host) s0))))) =
     Inr (map of_char ''3.10.0'') \<and>
   lstat (disk (snd (readTarball host (tmpdir host)
          (snd (npmPack host pkg_x64 ''3.10.0'' (tmpdir host)
             (snd (npmPack host pkg_x64 ''3.9.13'' (tmpdir host) s0)))))))
     (tmpdir host @ [''xspect-build-python-linux-x64-3.9.13.tgz'']) =
     Some (File (31 # 139 # map of_char ''3.9.13'') 420)"
proof -
  have 1: "lstat (disk s0) (tmpdir host) = Some (Dir [])"
    by code_simp
  have 2: "\<forall>c. map_of [] c \<noteq> None \<longrightarrow> \<not> isTarball c"
    by simp
  have 3: "npm_pack host pkg_x64 ''3.10.0'' =
           Some (''xspect-build-python-linux-x64-3.10.0.tgz'', 31 # 139 # map of_char ''3.10.0'')"
    by (simp add: host_def)
  have 4: "npm_pack host pkg_x64 ''3.9.13'' =
           Some (''xspect-build-python-linux-x64-3.9.13.tgz'', 31 # 139 # map of_char ''3.9.13'')"
    by (simp add: host_def)
  have 5: "isTarball ''xspect-build-python-linux-x64-3.10.0.tgz''"
    by code_simp
  have 6: "isTarball ''xspect-build-python-linux-x64-3.9.13.tgz''"
    by code_simp
  have 7: "''xspect-build-python-linux-x64-3.10.0.tgz'' < ''xspect-build-python-linux-x64-3.9.13.tgz''"
    by code_simp
  have 8: "gunzipSync host (31 # 139 # map of_char ''3.10.0'') = Some (map of_char ''3.10.0'')"
    by (simp add: host_def)
  from shared_tmpdir_collision [OF 1 2 3 4 5 6 7 8] 1 5 6 7 show ?thesis
    by blast
qed

section \<open>The artifact cache\<close>

text \<open>
  Claim C1, evaluated on the concrete host. The first call of \<open>getPythonPath\<close> for version
  3.9.13 and destination \<^verbatim>\<open>/d\<close> runs \<^verbatim>\<open>npm pack\<close> once and unpacks the archive; the manifest
  of the package lands at \<^verbatim>\<open>/d/package/package.json\<close>, and the marker the code looks for,
  \<^verbatim>\<open>/d/package.json\<close>, does not exist afterwards. The second call therefore runs
  \<^verbatim>\<open>npm pack\<close> again: two transport calls are logged.
\<close>

theorem cache_marker_never_written:
  "fst (getPythonPath host (Some [''d'']) ''3.9.13'' s0) = Inr [''d'', ''package'', ''python''] \<and>
   npm_log (snd (getPythonPath host (Some [''d'']) ''3.9.13'' s0)) = [(pkg_x64, ''3.9.13'')] \<and>
   markerFile host (Some [''d'']) ''3.9.13'' = [''d'', ''package.json''] \<and>
   \<not> existsSync (disk (snd (getPythonPath host (Some [''d'']) ''3.9.13'' s0))) [''d'', ''package.json''] \<and>
   existsSync (disk (snd (getPythonPath host (Some [''d'']) ''3.9.13'' s0)))
     [''d'', ''package'', ''package.json''] \<and>
   fst (getPythonPath host (Some [''d'']) ''3.9.13''
          (snd (getPythonPath host (Some [''d'']) ''3.9.13'' s0))) =
     Inr [''d'', ''package'', ''python''] \<and>
   npm_log (snd (getPythonPath host (Some [''d'']) ''3.9.13''
          (snd (getPythonPath host (Some [''d'']) ''3.9.13'' s0)))) =
     [(pkg_x64, ''3.9.13''), (pkg_x64, ''3.9.13'')]"
  by code_simp

section \<open>Permission restoration\<close>

text \<open>
  Claim C6, as the code has it. After a call of \<open>extract_py\<close> that materialised the archive
  and returned the payload directory, every regular file below the real directory of the
  payload's \<^verbatim>\<open>bin\<close> (reached through real directories) has mode \<^verbatim>\<open>0o755\<close>, unless the
  operating system refused \<^verbatim>\<open>chmod\<close> for it. Whether \<^verbatim>\<open>chmod\<close> is refused has no influence on
  the outcome of the call: a refusal is swallowed. Nothing is said of \<^verbatim>\<open>libexec\<close>, which
  \<open>extract_py\<close> does not visit.
\<close>

theorem extract_fixes_bin:
  "(\<forall>p s' rp rel b m.
      extract_py env dest v s = (Inr p, s') \<longrightarrow>
      \<not> existsSync (disk s) (markerFile env dest v) \<longrightarrow>
      realpath (disk s') (path_join p [''bin'']) = Some rp \<longrightarrow>
      lstat (disk s') (rp @ rel) = Some (File b m) \<longrightarrow>
      m = 493 \<or> chmod_denied env (path_join p [''bin''] @ rel)) \<and>
   (\<forall>d. fst (extract_py (env\<lparr>chmod_denied := d\<rparr>) dest v s) = fst (extract_py env dest v s))"
proof (intro conjI allI impI)
  fix p s' rp rel b m
  assume ex: "extract_py env dest v s = (Inr p, s')"
    and nm: "\<not> existsSync (disk s) (markerFile env dest v)"
    and rp: "realpath (disk s') (path_join p [''bin'']) = Some rp"
    and l: "lstat (disk s') (rp @ rel) = Some (File b m)"
  from ex nm obtain fs3 u where p: "p = pythonDir env dest v"
    and f: "fixPermissions env (path_join (pythonDir env dest v) [''bin'']) fs3 = (Inr u, disk s')"
    by (auto simp: extract_py_def split: if_splits prod.splits sum.splits)
  from fixPermissions_fixed [OF f] rp l p
  show "m = 493 \<or> chmod_denied env (path_join p [''bin''] @ rel)" by simp
next
  fix d
  show "fst (extract_py (env\<lparr>chmod_denied := d\<rparr>) dest v s) = fst (extract_py env dest v s)"
    by (rule extract_py_chmod_irrelevant)
qed

theorem extract_fixes_bin_witness:
  "fst (extract_py host (Some [''d'']) ''3.9.13'' s0) = Inr [''d'', ''package'', ''python''] \<and>
   \<not> existsSync (disk s0) (markerFile host (Some [''d'']) ''3.9.13'') \<and>
   realpath (disk (snd (extract_py host (Some [''d'']) ''3.9.13'' s0)))
     [''d'', ''package'', ''python'', ''bin''] = Some [''d'', ''package'', ''python'', ''bin''] \<and>
   (\<exists>b. lstat (disk (snd (extract_py host (Some [''d'']) ''3.9.13'' s0)))
          [''d'', ''package'', ''python'', ''bin'', ''python3''] = Some (File b 493)) \<and>
   \<not> chmod_denied host [''d'', ''package'', ''python'', ''bin'', ''python3'']"
proof -
  let ?r = "extract_py host (Some [''d'']) ''3.9.13'' s0"
  have 1: "fst ?r = Inr [''d'', ''package'', ''python'']"
    by code_simp
  have 2: "\<not> existsSync (disk s0) (markerFile host (Some [''d'']) ''3.9.13'')"
    by code_simp
  have 3: "realpath (disk (snd ?r)) [''d'', ''package'', ''python'', ''bin''] =
           Some [''d'', ''package'', ''python'', ''bin'']"
    by code_simp
  have "lstat (disk (snd ?r)) ([''d'', ''package'', ''python'', ''bin''] @ [''python3'']) =
           Some (File (map of_char ''3.9.13'') 493)"
    by code_simp
  then have 4: "\<exists>b m. lstat (disk (snd ?r)) ([''d'', ''package'', ''python'', ''bin''] @ [''python3'']) =
           Some (File b m)"
    by blast
  have 5: "\<not> chmod_denied host ([''d'', ''package'', ''python'', ''bin''] @ [''python3''])"
    by (simp add: host_def)
  have 6: "path_join [''d'', ''package'', ''python''] [''bin''] = [''d'', ''package'', ''python'', ''bin'']"
    by code_simp
  have 7: "?r = (Inr [''d'', ''package'', ''python''], snd ?r)"
    using 1 by (metis prod.collapse)
  from 4 obtain b m where bm:
    "lstat (disk (snd ?r)) ([''d'', ''package'', ''python'', ''bin''] @ [''python3'']) = Some (File b m)"
    by blast
  from extract_fixes_bin [of host "Some [''d'']" "''3.9.13''" s0] 7 2 3 bm 6
  have "m = 493 \<or> chmod_denied host ([''d'', ''package'', ''python'', ''bin''] @ [''python3''])"
    by (metis (no_types, lifting))
  with 5 bm have "lstat (disk (snd ?r)) [''d'', ''package'', ''python'', ''bin'', ''python3''] =
           Some (File b 493)" by simp
  with 1 2 3 5 show ?thesis by auto
qed

text \<open>
  The claim as the specification words it fails on the concrete host: after a successful
  extraction the file below \<^verbatim>\<open>libexec\<close> still has the mode of the archive, and when the
  operating system refuses \<^verbatim>\<open>chmod\<close> the interpreter below \<^verbatim>\<open>bin\<close> keeps its mode as well
  while the extraction succeeds.
\<close>

theorem libexec_not_fixed:
  "fst (extract_py host (Some [''d'']) ''3.9.13'' s0) = Inr [''d'', ''package'', ''python''] \<and>
   lstat (disk (snd (extract_py host (Some [''d'']) ''3.9.13'' s0)))
     [''d'', ''package'', ''python'', ''libexec'', ''helper''] = Some (File [1] 420) \<and>
   fst (extract_py (host\<lparr>chmod_denied := (\<lambda>p. True)\<rparr>) (Some [''d'']) ''3.9.13'' s0) =
     Inr [''d'', ''package'', ''python''] \<and>
   lstat (disk (snd (extract_py (host\<lparr>chmod_denied := (\<lambda>p. True)\<rparr>) (Some [''d'']) ''3.9.13'' s0)))
     [''d'', ''package'', ''python'', ''bin'', ''python3''] = Some (File (map of_char ''3.9.13'') 420)"
  by code_simp

section \<open>Failure leaves no marker\<close>

text \<open>
  Claim C2, as the code has it. \<open>extract_py\<close> has no step that writes the marker or takes it
  away: what stands at \<^verbatim>\<open>destPath/package.json\<close> after a call is what the archive and the
  disk put there. Let every archive of the registry have the layout of \<^verbatim>\<open>npm pack\<close> (entries
  below \<^verbatim>\<open>package/\<close>, no links; the stream may break off), let npm name its tarballs as it
  does, and let no symbolic link stand on the way to the destination, below it, on the way to
  the temporary directory or in the place of a tarball there (links elsewhere on the disk do
  not matter). Then a call for a version that is not empty never creates the marker. In
  particular, when the call fails, in the download, in creating the destination, in the
  middle of unpacking or in the permission pass, the marker does not exist afterwards, and on
  a supported platform the next call for the same version runs \<^verbatim>\<open>npm pack\<close> again.
\<close>

theorem failed_extract_leaves_no_marker:
  assumes "linkfree (zone env dest v) (disk s)"
    and "\<forall>b. list_all npm_entry (tar_entries env b)"
    and "\<forall>pkg v n b. npm_pack env pkg v = Some (n, b) \<longrightarrow> isTarball n"
    and "v \<noteq> []"
    and "extract_py env dest v s = (r, s')"
  shows "(\<not> existsSync (disk s) (markerFile env dest v) \<longrightarrow>
            \<not> existsSync (disk s') (markerFile env dest v)) \<and>
         (\<forall>e. r = Inl e \<longrightarrow>
            \<not> existsSync (disk s') (markerFile env dest v) \<and>
            (\<forall>pkg. getPlatformPackageName env = Some pkg \<longrightarrow>
               npm_log (snd (extract_py env dest v s')) = npm_log s' @ [(pkg, v)]))"
proof -
  have keep: "\<not> existsSync (disk s') (markerFile env dest v)"
    if nm: "\<not> existsSync (disk s) (markerFile env dest v)"
    using unmarked_extract_py [OF assms(5,4) nm assms(1,2,3)] by (rule unmarked_not_exists)
  have fail: "\<not> existsSync (disk s') (markerFile env dest v) \<and>
            (\<forall>pkg. getPlatformPackageName env = Some pkg \<longrightarrow>
               npm_log (snd (extract_py env dest v s')) = npm_log s' @ [(pkg, v)])"
    if e: "r = Inl e" for e
  proof -
    have nm: "\<not> existsSync (disk s) (markerFile env dest v)"
      using assms(4,5) e by (auto simp: extract_py_def)
    have gone: "\<not> existsSync (disk s') (markerFile env dest v)"
      using keep [OF nm] .
    have "npm_log (snd (extract_py env dest v s')) = npm_log s' @ [(pkg, v)]"
      if "getPlatformPackageName env = Some pkg" for pkg
      using npm_log_extract_py [OF assms(4) gone] npm_log_download [OF assms(4) that] by simp
    with gone show ?thesis by blast
  qed
  from keep fail show ?thesis by blast
qed

text \<open>
  The claim as the specification words it fails: the marker is whatever the archive puts at
  \<^verbatim>\<open>package.json\<close> below the destination, written when its entry is reached and not at the
  end. When the registry serves an archive with the manifest at the top level and the stream
  breaks off after it, the extraction fails in the middle of unpacking with the marker on
  disk, and the next call returns the payload path, which does not exist, without a second
  transport call.
\<close>

theorem flat_archive_leaves_marker:
  "fst (extract_py host_flat_truncated (Some [''d'']) ''3.9.13'' s0) = Inl CorruptArchive \<and>
   existsSync (disk (snd (extract_py host_flat_truncated (Some [''d'']) ''3.9.13'' s0)))
     (markerFile host_flat_truncated (Some [''d'']) ''3.9.13'') \<and>
   fst (extract_py host_flat_truncated (Some [''d'']) ''3.9.13''
          (snd (extract_py host_flat_truncated (Some [''d'']) ''3.9.13'' s0))) =
     Inr [''d'', ''package'', ''python''] \<and>
   \<not> existsSync (disk (snd (extract_py host_flat_truncated (Some [''d'']) ''3.9.13''
          (snd (extract_py host_flat_truncated (Some [''d'']) ''3.9.13'' s0)))))
     [''d'', ''package'', ''python''] \<and>
   npm_log (snd (extract_py host_flat_truncated (Some [''d'']) ''3.9.13''
              (snd (extract_py host_flat_truncated (Some [''d'']) ''3.9.13'' s0)))) =
     [(pkg_x64, ''3.9.13'')]"
  by code_simp

text \<open>
  On the concrete host with the truncated archive in the layout of \<^verbatim>\<open>npm pack\<close>, and a disk
  that holds a symbolic link away from the destination and the temporary directory, the
  extraction fails in the middle of unpacking: the manifest below \<^verbatim>\<open>package/\<close> is on disk, the
  marker is not, and the second call logs a second transport call.
\<close>

theorem failed_extract_leaves_no_marker_witness:
  "lstat disk_usr [''bin''] = Some (Link False [Name ''usr'', Name ''bin'']) \<and>
   fst (extract_py host_truncated (Some [''d'']) ''3.9.13'' \<lparr>disk = disk_usr, npm_log = []\<rparr>) =
     Inl CorruptArchive \<and>
   existsSync (disk (snd (extract_py host_truncated (Some [''d'']) ''3.9.13''
                \<lparr>disk = disk_usr, npm_log = []\<rparr>)))
     [''d'', ''package'', ''package.json''] \<and>
   \<not> existsSync (disk (snd (extract_py host_truncated (Some [''d'']) ''3.9.13''
                  \<lparr>disk = disk_usr, npm_log = []\<rparr>)))
     (markerFile host_truncated (Some [''d'']) ''3.9.13'') \<and>
   npm_log (snd (extract_py host_truncated (Some [''d'']) ''3.9.13''
              (snd (extract_py host_truncated (Some [''d'']) ''3.9.13''
                 \<lparr>disk = disk_usr, npm_log = []\<rparr>)))) =
     npm_log (snd (extract_py host_truncated (Some [''d'']) ''3.9.13''
                \<lparr>disk = disk_usr, npm_log = []\<rparr>)) @ [(pkg_x64, ''3.9.13'')]"
proof -
  let ?s = "\<lparr>disk = disk_usr, npm_log = []\<rparr>"
  let ?r = "extract_py host_truncated (Some [''d'']) ''3.9.13'' ?s"
  have 0: "lstat disk_usr [''bin''] = Some (Link False [Name ''usr'', Name ''bin''])"
    by code_simp
  have 1: "linkfree (zone host_truncated (Some [''d'']) ''3.9.13'') (disk ?s)"
    using linkfree_disk_usr by simp
  have 2: "\<forall>b. list_all npm_entry (tar_entries host_truncated b)"
    by (simp add: host_truncated_def)
  have 3: "\<forall>pkg v n b. npm_pack host_truncated pkg v = Some (n, b) \<longrightarrow> isTarball n"
    using host_tarball_names by (simp add: host_truncated_def)
  have 4: "''3.9.13'' \<noteq> []"
    by simp
  have 5: "fst ?r = Inl CorruptArchive"
    by code_simp
  have 6: "?r = (Inl CorruptArchive, snd ?r)"
    using 5 by (metis prod.collapse)
  have 7: "existsSync (disk (snd ?r)) [''d'', ''package'', ''package.json'']"
    by code_simp
  have 8: "getPlatformPackageName host_truncated = Some pkg_x64"
    by code_simp
  from failed_extract_leaves_no_marker [OF 1 2 3 4 6] 8 0 5 7 show ?thesis
    by blast
qed

section \<open>Replacing symbolic links\<close>




end
